theory Spec2Isabelle
  imports Main "HOL-Library.Word"
begin

unbundle bit_operations_syntax

section \<open>Data model\<close>

text \<open>
  A shallow embedding of the Go package \<open>sq_cache\<close>: the intrusive recency list
  (\<open>lruList\<close>, \<open>lruListNode\<close>), the shard (\<open>lruCacheShard\<close>) and the
  orchestrator (\<open>LRUCache\<close>).

  Go pointers are addresses (\<open>nat\<close>); a pointer that may be \<open>nil\<close> is an
  \<open>addr option\<close>. Objects live in typed heaps (one for list nodes, one for list
  headers). A Go run-time panic is the \<open>Inl\<close> branch of every operation that can raise
  one. \<open>int64\<close> and \<open>uint64\<close> values are \<open>64 word\<close>: \<open>+\<close> wraps, signed
  comparisons read the word with \<open>sint\<close>.
\<close>

datatype fault =
    NilDereference      \<comment> \<open>a field of a nil pointer is read or written\<close>
  | IndexOutOfRange     \<comment> \<open>a slice is indexed outside \<open>0 \<le> i < len\<close>\<close>
  | DivideByZero        \<comment> \<open>integer \<open>%\<close> by zero\<close>
  | MakeLenOutOfRange   \<comment> \<open>\<open>make([]T, n)\<close> with negative \<open>n\<close>\<close>
  | TypeAssertion       \<comment> \<open>a failed \<open>x.(T)\<close>\<close>

type_synonym addr = nat

text \<open>
  Modelled from the spec: the type constraints \<open>IKey\<close> and \<open>IValue\<close> are declared
  in a file that is not part of the sources at hand. The spec says that the key type is
  treated as text and the value type as a byte sequence, and the code assigns \<open>""\<close> to a
  key and \<open>nil\<close> to a value; so a key is a \<open>string\<close> and a value a list of bytes
  (\<open>nil\<close> being the empty list).
\<close>

type_synonym key = string
type_synonym val = "8 word list"

text \<open>
  A \<open>time.Time\<close> is the instant it denotes, counted in nanoseconds from the zero
  instant of the type: \<open>IsZero\<close> is \<open>t = 0\<close> and \<open>a.Before(b)\<close> is \<open>a < b\<close>.
\<close>

type_synonym time = int

record lruListNode =
  n_next :: "addr option"
  n_prev :: "addr option"
  n_list :: "addr option"
  Key :: key
  Value :: val
  TTL :: time

record lruList =
  root :: addr
  l_len :: int

record memory =
  node_at :: "addr \<Rightarrow> lruListNode"
  list_at :: "addr \<Rightarrow> lruList"
  fresh :: addr

text \<open>\<open>&lruListNode[K, V]{}\<close>: every field has its zero value.\<close>

definition zero_node :: lruListNode where
  "zero_node = \<lparr>n_next = None, n_prev = None, n_list = None, Key = [], Value = [], TTL = 0\<rparr>"

text \<open>\<open>newLRUListNode\<close>: a new zero node at an address nothing else refers to.\<close>

definition newLRUListNode :: "memory \<Rightarrow> addr \<times> memory" where
  "newLRUListNode m =
     (fresh m, m\<lparr>node_at := (node_at m)(fresh m := zero_node), fresh := Suc (fresh m)\<rparr>)"

text \<open>Field assignments \<open>p.next = v\<close>, \<open>p.prev = v\<close>, \<open>p.list = v\<close> through a non-nil pointer.\<close>

definition set_next :: "addr \<Rightarrow> addr option \<Rightarrow> memory \<Rightarrow> memory" where
  "set_next p v m = m\<lparr>node_at := (node_at m)(p := (node_at m p)\<lparr>n_next := v\<rparr>)\<rparr>"

definition set_prev :: "addr \<Rightarrow> addr option \<Rightarrow> memory \<Rightarrow> memory" where
  "set_prev p v m = m\<lparr>node_at := (node_at m)(p := (node_at m p)\<lparr>n_prev := v\<rparr>)\<rparr>"

definition set_list :: "addr \<Rightarrow> addr option \<Rightarrow> memory \<Rightarrow> memory" where
  "set_list p v m = m\<lparr>node_at := (node_at m)(p := (node_at m p)\<lparr>n_list := v\<rparr>)\<rparr>"

definition set_len :: "addr \<Rightarrow> int \<Rightarrow> memory \<Rightarrow> memory" where
  "set_len ll v m = m\<lparr>list_at := (list_at m)(ll := (list_at m ll)\<lparr>l_len := v\<rparr>)\<rparr>"

section \<open>The recency list\<close>

text \<open>
  \<open>newLRUList\<close>: the sentinel root is allocated first, then the header; the root is
  linked to itself and the length is 0.
\<close>

definition newLRUList :: "memory \<Rightarrow> addr \<times> memory" where
  "newLRUList m =
     (let (r, m1) = newLRUListNode m;
          ll = fresh m1;
          m2 = m1\<lparr>list_at := (list_at m1)(ll := \<lparr>root = r, l_len = 0\<rparr>), fresh := Suc (fresh m1)\<rparr>;
          m3 = set_next (root (list_at m2 ll)) (Some (root (list_at m2 ll))) m2;
          m4 = set_prev (root (list_at m3 ll)) (Some (root (list_at m3 ll))) m3;
          m5 = set_len ll 0 m4
      in (ll, m5))"

text \<open>
  \<open>insert(lln, at)\<close>: the six statements of the source in their order. The two
  assignments through \<open>lln.prev\<close> and \<open>lln.next\<close> dereference a pointer read back
  from the heap.
\<close>

definition lruList_insert :: "addr \<Rightarrow> addr \<Rightarrow> addr \<Rightarrow> memory \<Rightarrow> fault + memory" where
  "lruList_insert ll lln at m =
     (let m1 = set_prev lln (Some at) m;
          m2 = set_next lln (n_next (node_at m1 at)) m1
      in case n_prev (node_at m2 lln) of
           None \<Rightarrow> Inl NilDereference
         | Some p \<Rightarrow>
             (let m3 = set_next p (Some lln) m2
              in case n_next (node_at m3 lln) of
                   None \<Rightarrow> Inl NilDereference
                 | Some n \<Rightarrow>
                     (let m4 = set_prev n (Some lln) m3;
                          m5 = set_list lln (Some ll) m4
                      in Inr (set_len ll (l_len (list_at m5 ll) + 1) m5))))"

text \<open>\<open>remove(lln)\<close>: unlink, clear the three pointers of the node, decrement the length.\<close>

definition lruList_remove :: "addr \<Rightarrow> addr \<Rightarrow> memory \<Rightarrow> fault + memory" where
  "lruList_remove ll lln m =
     (case n_prev (node_at m lln) of
        None \<Rightarrow> Inl NilDereference
      | Some p \<Rightarrow>
          (let m1 = set_next p (n_next (node_at m lln)) m
           in case n_next (node_at m1 lln) of
                None \<Rightarrow> Inl NilDereference
              | Some n \<Rightarrow>
                  (let m2 = set_prev n (n_prev (node_at m1 lln)) m1;
                       m3 = set_next lln None m2;
                       m4 = set_prev lln None m3;
                       m5 = set_list lln None m4
                   in Inr (set_len ll (l_len (list_at m5 ll) - 1) m5))))"

text \<open>\<open>move(lln, at)\<close>: nothing when both are the same node; else unlink and relink after \<open>at\<close>.\<close>

definition lruList_move :: "addr \<Rightarrow> addr \<Rightarrow> addr \<Rightarrow> memory \<Rightarrow> fault + memory" where
  "lruList_move ll lln at m =
     (if lln = at then Inr m
      else case n_prev (node_at m lln) of
        None \<Rightarrow> Inl NilDereference
      | Some p \<Rightarrow>
          (let m1 = set_next p (n_next (node_at m lln)) m
           in case n_next (node_at m1 lln) of
                None \<Rightarrow> Inl NilDereference
              | Some n \<Rightarrow>
                  (let m2 = set_prev n (n_prev (node_at m1 lln)) m1;
                       m3 = set_prev lln (Some at) m2;
                       m4 = set_next lln (n_next (node_at m3 at)) m3
                   in case n_prev (node_at m4 lln) of
                        None \<Rightarrow> Inl NilDereference
                      | Some p' \<Rightarrow>
                          (let m5 = set_next p' (Some lln) m4
                           in case n_next (node_at m5 lln) of
                                None \<Rightarrow> Inl NilDereference
                              | Some n' \<Rightarrow> Inr (set_prev n' (Some lln) m5)))))"

definition lruList_Len :: "addr \<Rightarrow> memory \<Rightarrow> int" where
  "lruList_Len ll m = l_len (list_at m ll)"

text \<open>\<open>Front\<close> and \<open>Back\<close>: \<open>nil\<close> on a list of length 0, else \<open>root.next\<close>, \<open>root.prev\<close>.\<close>

definition lruList_Front :: "addr \<Rightarrow> memory \<Rightarrow> addr option" where
  "lruList_Front ll m =
     (if l_len (list_at m ll) = 0 then None else n_next (node_at m (root (list_at m ll))))"

definition lruList_Back :: "addr \<Rightarrow> memory \<Rightarrow> addr option" where
  "lruList_Back ll m =
     (if l_len (list_at m ll) = 0 then None else n_prev (node_at m (root (list_at m ll))))"

text \<open>\<open>Remove(lln)\<close>: guarded by the back-reference of the node.\<close>

definition lruList_Remove :: "addr \<Rightarrow> addr \<Rightarrow> memory \<Rightarrow> fault + memory" where
  "lruList_Remove ll lln m =
     (if n_list (node_at m lln) = Some ll then lruList_remove ll lln m else Inr m)"

definition lruList_PushFront :: "addr \<Rightarrow> addr \<Rightarrow> memory \<Rightarrow> fault + memory" where
  "lruList_PushFront ll lln m = lruList_insert ll lln (root (list_at m ll)) m"

definition lruList_MoveToFront :: "addr \<Rightarrow> addr \<Rightarrow> memory \<Rightarrow> fault + memory" where
  "lruList_MoveToFront ll lln m =
     (if n_list (node_at m lln) \<noteq> Some ll \<or> n_next (node_at m (root (list_at m ll))) = Some lln
      then Inr m
      else lruList_move ll lln (root (list_at m ll)) m)"

text \<open>
  \<open>lruListNode.Next\<close>: the next node, or \<open>nil\<close> when the node is in no list or its
  successor is the root of its list.
\<close>

definition lruListNode_Next :: "addr \<Rightarrow> memory \<Rightarrow> addr option" where
  "lruListNode_Next lln m =
     (case n_list (node_at m lln) of
        None \<Rightarrow> None
      | Some l \<Rightarrow> (if n_next (node_at m lln) \<noteq> Some (root (list_at m l))
                   then n_next (node_at m lln) else None))"

section \<open>Telemetry counters\<close>

datatype counterMode = Add | Update | Hit | Miss | Evict

record telemetry =
  t_Add :: "64 word"
  t_Update :: "64 word"
  t_Hit :: "64 word"
  t_Miss :: "64 word"
  t_Evict :: "64 word"

definition newTelemetry :: telemetry where
  "newTelemetry = \<lparr>t_Add = 0, t_Update = 0, t_Hit = 0, t_Miss = 0, t_Evict = 0\<rparr>"

fun getCounter :: "counterMode \<Rightarrow> telemetry \<Rightarrow> 64 word" where
  "getCounter Add t = t_Add t"
| "getCounter Update t = t_Update t"
| "getCounter Hit t = t_Hit t"
| "getCounter Miss t = t_Miss t"
| "getCounter Evict t = t_Evict t"

fun setCounter :: "counterMode \<Rightarrow> 64 word \<Rightarrow> telemetry \<Rightarrow> telemetry" where
  "setCounter Add v t = t\<lparr>t_Add := v\<rparr>"
| "setCounter Update v t = t\<lparr>t_Update := v\<rparr>"
| "setCounter Hit v t = t\<lparr>t_Hit := v\<rparr>"
| "setCounter Miss v t = t\<lparr>t_Miss := v\<rparr>"
| "setCounter Evict v t = t\<lparr>t_Evict := v\<rparr>"

section \<open>The shard\<close>

text \<open>
  The five callbacks of the configuration are functions of the user; the default ones
  print the key when the logging flag is set and do nothing else. The model covers
  callbacks that, like the default ones, do not write through the node pointer they
  receive: it records every call, in order, with the two arguments it is made with, the
  logging flag and the key (the key of the node that is passed).
\<close>

text \<open>
  A shard allocates its own list and nodes and shares none of them with another shard,
  so every shard carries its own part of the heap (\<open>s_mem\<close>). \<open>s_list\<close> is the pointer
  \<open>shard.list\<close>, \<open>s_nodes\<close> the map from keys to node pointers, \<open>s_telemetry\<close>
  the counters that \<open>shard.telemetry\<close> points to, and \<open>s_calls\<close> the record of the
  callbacks made so far.
\<close>

datatype hook_call =
    OnAdd bool key
  | OnUpdate bool key
  | OnHit bool key
  | OnMiss bool key
  | OnEvict bool key

record lruCacheShard =
  s_id :: "64 word"
  s_maxItems :: "64 word"
  s_loggingOn :: bool
  s_telemetryOn :: bool
  s_list :: addr
  s_nodes :: "key \<rightharpoonup> addr"
  s_telemetry :: telemetry
  s_mem :: memory
  s_calls :: "hook_call list"

record Config =
  LoggingOn :: bool
  TelemetryOn :: bool
  MaxShards :: "64 word"
  MaxItems :: "64 word"
  ExpiryDurationInSeconds :: "64 word"
  CleanupDurationInSeconds :: "64 word"
  GenerateKey :: "val \<Rightarrow> fault + key"
  GenerateShardId :: "key \<Rightarrow> 64 word \<Rightarrow> fault + 64 word"

definition empty_memory :: memory where
  "empty_memory = \<lparr>node_at = (\<lambda>_. zero_node), list_at = (\<lambda>_. \<lparr>root = 0, l_len = 0\<rparr>), fresh = 0\<rparr>"

definition newLRUCacheShard :: "Config \<Rightarrow> 64 word \<Rightarrow> lruCacheShard" where
  "newLRUCacheShard config i =
     (let (ll, m) = newLRUList empty_memory
      in \<lparr>s_id = i, s_maxItems = MaxItems config,
          s_loggingOn = LoggingOn config, s_telemetryOn = TelemetryOn config,
          s_list = ll, s_nodes = Map.empty, s_telemetry = newTelemetry,
          s_mem = m, s_calls = []\<rparr>)"

text \<open>
  \<open>getItemFromPool\<close>. The pool is \<open>generic_syncpool.Pool\<close>, a module outside this
  repository; \<open>Get\<close> hands out a node that nothing else refers to. The model allocates a
  zero node, then stores the three fields as the source does.
\<close>

definition getItemFromPool :: "key \<Rightarrow> val \<Rightarrow> time \<Rightarrow> lruCacheShard \<Rightarrow> addr \<times> lruCacheShard" where
  "getItemFromPool k v ttl s =
     (let (item, m) = newLRUListNode (s_mem s);
          m' = m\<lparr>node_at := (node_at m)(item := (node_at m item)\<lparr>Key := k, Value := v, TTL := ttl\<rparr>)\<rparr>
      in (item, s\<lparr>s_mem := m'\<rparr>))"

text \<open>
  \<open>removeItem\<close>: \<open>list.Remove\<close>, \<open>delete(nodes, item.Key)\<close>, and the \<open>onEvict\<close>
  callback when the telemetry flag of the shard is set.
\<close>

definition removeItem :: "addr \<Rightarrow> lruCacheShard \<Rightarrow> fault + lruCacheShard" where
  "removeItem item s =
     (case lruList_Remove (s_list s) item (s_mem s) of
        Inl e \<Rightarrow> Inl e
      | Inr m \<Rightarrow>
          (let s1 = s\<lparr>s_mem := m\<rparr>;
               s2 = s1\<lparr>s_nodes := (s_nodes s1)(Key (node_at (s_mem s1) item) := None)\<rparr>
           in Inr (if s_telemetryOn s2
                   then s2\<lparr>s_calls := s_calls s2 @ [OnEvict (s_loggingOn s2) (Key (node_at (s_mem s2) item))]\<rparr>
                   else s2)))"

definition removeItemOldest :: "lruCacheShard \<Rightarrow> fault + lruCacheShard" where
  "removeItemOldest s =
     (case lruList_Back (s_list s) (s_mem s) of
        None \<Rightarrow> Inr s
      | Some item \<Rightarrow> removeItem item s)"

text \<open>
  \<open>CleanupShard\<close>. The source reads the clock once (\<open>now\<close>) and ranges over the map.
  Go leaves the order of a map range open, so the order is an argument: \<open>order\<close> lists
  the keys in the order in which the range reaches them. An entry deleted before the
  range reaches it is not produced, which is the \<open>None\<close> branch.
\<close>

fun CleanupShard_loop :: "time \<Rightarrow> key list \<Rightarrow> 64 word \<Rightarrow> lruCacheShard \<Rightarrow> fault + (64 word \<times> lruCacheShard)" where
  "CleanupShard_loop now [] evictCount s = Inr (evictCount, s)"
| "CleanupShard_loop now (k # ks) evictCount s =
     (case s_nodes s k of
        None \<Rightarrow> CleanupShard_loop now ks evictCount s
      | Some item \<Rightarrow>
          (if TTL (node_at (s_mem s) item) < now \<and> TTL (node_at (s_mem s) item) \<noteq> 0
           then (case removeItem item s of
                   Inl e \<Rightarrow> Inl e
                 | Inr s' \<Rightarrow> CleanupShard_loop now ks (evictCount + 1) s')
           else CleanupShard_loop now ks evictCount s))"

definition CleanupShard :: "time \<Rightarrow> key list \<Rightarrow> lruCacheShard \<Rightarrow> fault + (64 word \<times> lruCacheShard)" where
  "CleanupShard now order s = CleanupShard_loop now order 0 s"

definition call_hook :: "hook_call \<Rightarrow> lruCacheShard \<Rightarrow> lruCacheShard" where
  "call_hook c s = (if s_telemetryOn s then s\<lparr>s_calls := s_calls s @ [c]\<rparr> else s)"

text \<open>
  \<open>lruCacheShard.Set\<close>; the result is \<open>(evicted, added)\<close>. A node is taken from the
  pool before the lookup, on an update too. The eviction test compares the length the
  caller passes, as \<open>int64\<close>, with the \<open>maxItems\<close> of the shard.
\<close>

definition shard_Set :: "64 word \<Rightarrow> key \<Rightarrow> val \<Rightarrow> time \<Rightarrow> lruCacheShard \<Rightarrow> fault + ((bool \<times> bool) \<times> lruCacheShard)" where
  "shard_Set cacheLen k v ttl s =
     (let (newItem, s1) = getItemFromPool k v ttl s
      in case s_nodes s1 k of
           Some item \<Rightarrow>
             (case lruList_MoveToFront (s_list s1) item (s_mem s1) of
                Inl e \<Rightarrow> Inl e
              | Inr m \<Rightarrow>
                  (let m' = m\<lparr>node_at := (node_at m)(item := (node_at m item)\<lparr>Value := v, TTL := ttl\<rparr>)\<rparr>;
                       s2 = s1\<lparr>s_mem := m'\<rparr>;
                       s3 = call_hook (OnUpdate (s_loggingOn s2) (Key (node_at (s_mem s2) item))) s2
                   in Inr ((False, False), s3)))
         | None \<Rightarrow>
             (case lruList_PushFront (s_list s1) newItem (s_mem s1) of
                Inl e \<Rightarrow> Inl e
              | Inr m \<Rightarrow>
                  (let s2 = s1\<lparr>s_mem := m\<rparr>;
                       s3 = s2\<lparr>s_nodes := (s_nodes s2)(k \<mapsto> newItem)\<rparr>;
                       s4 = call_hook (OnAdd (s_loggingOn s3) (Key (node_at (s_mem s3) newItem))) s3
                   in if sint (s_maxItems s4) \<le> sint cacheLen
                      then (case removeItemOldest s4 of
                              Inl e \<Rightarrow> Inl e
                            | Inr s5 \<Rightarrow> Inr ((True, False), s5))
                      else Inr ((False, True), s4))))"

text \<open>\<open>Get\<close>, \<open>Contains\<close>, \<open>Peek\<close>, \<open>Remove\<close>: none of them reads a clock or a TTL.\<close>

definition shard_Get :: "key \<Rightarrow> lruCacheShard \<Rightarrow> fault + ((val \<times> bool) \<times> lruCacheShard)" where
  "shard_Get k s =
     (case s_nodes s k of
        Some item \<Rightarrow>
          (case lruList_MoveToFront (s_list s) item (s_mem s) of
             Inl e \<Rightarrow> Inl e
           | Inr m \<Rightarrow>
               (let s1 = s\<lparr>s_mem := m\<rparr>;
                    s2 = call_hook (OnHit (s_loggingOn s1) (Key (node_at (s_mem s1) item))) s1
                in Inr ((Value (node_at (s_mem s2) item), True), s2)))
      | None \<Rightarrow> Inr (([], False), call_hook (OnMiss (s_loggingOn s) k) s))"

definition shard_Contains :: "key \<Rightarrow> lruCacheShard \<Rightarrow> bool \<times> lruCacheShard" where
  "shard_Contains k s =
     (case s_nodes s k of
        Some item \<Rightarrow> (True, call_hook (OnHit (s_loggingOn s) (Key (node_at (s_mem s) item))) s)
      | None \<Rightarrow> (False, call_hook (OnMiss (s_loggingOn s) k) s))"

definition shard_Peek :: "key \<Rightarrow> lruCacheShard \<Rightarrow> (val \<times> bool) \<times> lruCacheShard" where
  "shard_Peek k s =
     (case s_nodes s k of
        Some item \<Rightarrow>
          (let s1 = call_hook (OnHit (s_loggingOn s) (Key (node_at (s_mem s) item))) s
           in ((Value (node_at (s_mem s1) item), True), s1))
      | None \<Rightarrow> (([], False), call_hook (OnMiss (s_loggingOn s) k) s))"

definition shard_Remove :: "key \<Rightarrow> lruCacheShard \<Rightarrow> fault + (bool \<times> lruCacheShard)" where
  "shard_Remove k s =
     (case s_nodes s k of
        Some item \<Rightarrow>
          (case removeItem item s of
             Inl e \<Rightarrow> Inl e
           | Inr s' \<Rightarrow> Inr (True, s'))
      | None \<Rightarrow> Inr (False, call_hook (OnMiss (s_loggingOn s) k) s))"

text \<open>\<open>Purge\<close>: a new list, a new pool and a new map; the old objects stay where they are.\<close>

definition shard_Purge :: "lruCacheShard \<Rightarrow> lruCacheShard" where
  "shard_Purge s =
     (let (ll, m) = newLRUList (s_mem s)
      in s\<lparr>s_list := ll, s_mem := m, s_nodes := Map.empty\<rparr>)"

definition shard_Telemetry :: "lruCacheShard \<Rightarrow> telemetry" where
  "shard_Telemetry s = s_telemetry s"

definition shard_TelemetryReset :: "lruCacheShard \<Rightarrow> lruCacheShard" where
  "shard_TelemetryReset s = s\<lparr>s_telemetry := newTelemetry\<rparr>"

section \<open>The default key and shard functions\<close>

text \<open>
  \<open>crypto/sha1\<close> is the standard library: the digest function is the argument
  \<open>sha1\<close> (bytes to the 20 bytes of \<open>h.Sum(nil)\<close>). \<open>[]byte(k)\<close> is the
  bytes of the string.
\<close>

definition bytes_of :: "key \<Rightarrow> 8 word list" where
  "bytes_of k = map of_char k"

text \<open>\<open>binary.BigEndian.Uint64\<close>: reads eight bytes; a shorter slice is an index fault.\<close>

definition BigEndian_Uint64 :: "8 word list \<Rightarrow> fault + 64 word" where
  "BigEndian_Uint64 b =
     (if length b < 8 then Inl IndexOutOfRange
      else Inr (foldl (\<lambda>acc x. push_bit 8 acc OR ucast x) 0 (take 8 b)))"

text \<open>
  \<open>generateKey\<close>: the digest \<open>k\<close> is a \<open>[]byte\<close>, and \<open>any(k).(K)\<close> asserts
  that its dynamic type is the key type. A key is text, so the assertion fails.
\<close>

definition generateKey :: "(8 word list \<Rightarrow> 8 word list) \<Rightarrow> val \<Rightarrow> fault + key" where
  "generateKey sha1 v = (let k = sha1 v in Inl TypeAssertion)"

text \<open>
  \<open>generateShardId\<close>: the first eight bytes of the digest as an unsigned number,
  modulo \<open>uint64(maxItems)\<close>, converted to \<open>int64\<close>. Both conversions keep the bits.
\<close>

definition generateShardId :: "(8 word list \<Rightarrow> 8 word list) \<Rightarrow> key \<Rightarrow> 64 word \<Rightarrow> fault + 64 word" where
  "generateShardId sha1 k maxItems' =
     (let v = sha1 (bytes_of k)
      in case BigEndian_Uint64 v of
           Inl e \<Rightarrow> Inl e
         | Inr u \<Rightarrow> (if maxItems' = 0 then Inl DivideByZero else Inr (u mod maxItems')))"

section \<open>The cache\<close>

datatype CacheStatus = Opened | Started | Stopped | Closed

record LRUCache =
  maxShards :: "64 word"
  maxItems :: "64 word"
  len :: "64 word"
  loggingOn :: bool
  telemetryOn :: bool
  expiryDurationInSeconds :: "64 word"
  cleanupDurationInSeconds :: "64 word"
  generateKey_of :: "val \<Rightarrow> fault + key"
  generateShardId_of :: "key \<Rightarrow> 64 word \<Rightarrow> fault + 64 word"
  status :: CacheStatus
  isCleanupTickerActive :: bool
  shards :: "lruCacheShard list"

text \<open>
  An \<open>error\<close> value of Go is its message; \<open>nil\<close> is \<open>None\<close>. A public operation
  returns its Go results and the cache after it, or a fault.
\<close>

type_synonym err = "string option"

definition Start :: "LRUCache \<Rightarrow> LRUCache" where
  "Start c = c\<lparr>status := Started\<rparr>"

definition Stop :: "LRUCache \<Rightarrow> LRUCache" where
  "Stop c = c\<lparr>status := Stopped\<rparr>"

definition Status :: "LRUCache \<Rightarrow> CacheStatus" where
  "Status c = status c"

definition Len :: "LRUCache \<Rightarrow> 64 word" where
  "Len c = len c"

text \<open>
  \<open>NewLRUCache\<close>, from the configuration that \<open>Combine\<close> returns (merging the
  defaults with the user's values is the work of another module). The struct literal
  sets every field but \<open>len\<close> and \<open>telemetryOn\<close>, which keep their zero values.
  The cleanup goroutine it starts is the operation \<open>cleanupTick\<close> below.
\<close>

definition NewLRUCache :: "Config \<Rightarrow> fault + LRUCache" where
  "NewLRUCache config =
     (if sint (MaxShards config) < 0 then Inl MakeLenOutOfRange
      else Inr (Start
        \<lparr>maxShards = MaxShards config, maxItems = MaxItems config, len = 0,
         loggingOn = LoggingOn config, telemetryOn = False,
         expiryDurationInSeconds = ExpiryDurationInSeconds config,
         cleanupDurationInSeconds = CleanupDurationInSeconds config,
         generateKey_of = GenerateKey config,
         generateShardId_of = GenerateShardId config,
         status = Opened, isCleanupTickerActive = True,
         shards = map (\<lambda>shardId. newLRUCacheShard config (word_of_nat shardId))
                      [0 ..< nat (sint (MaxShards config))]\<rparr>))"

text \<open>\<open>cache.shards[shardId]\<close> with an \<open>int64\<close> index.\<close>

definition shard_index :: "LRUCache \<Rightarrow> 64 word \<Rightarrow> fault + nat" where
  "shard_index c shardId =
     (if 0 \<le> sint shardId \<and> sint shardId < int (length (shards c))
      then Inr (nat (sint shardId)) else Inl IndexOutOfRange)"

text \<open>
  The last lines of \<open>Set\<close> and of \<open>SetWithTTL\<close> are the same: route the key with
  \<open>maxItems\<close>, call the shard with the current \<open>len\<close>, then \<open>len.Add(-1)\<close> when
  the shard reports an eviction and \<open>len.Add(1)\<close> always.
\<close>

definition route_and_Set :: "key \<Rightarrow> val \<Rightarrow> time \<Rightarrow> LRUCache \<Rightarrow> fault + ((key \<times> err) \<times> LRUCache)" where
  "route_and_Set k v ttl c =
     (case generateShardId_of c k (maxItems c) of
        Inl e \<Rightarrow> Inl e
      | Inr shardId \<Rightarrow>
          (case shard_index c shardId of
             Inl e \<Rightarrow> Inl e
           | Inr i \<Rightarrow>
               (case shard_Set (len c) k v ttl (shards c ! i) of
                  Inl e \<Rightarrow> Inl e
                | Inr ((evicted, added), sh) \<Rightarrow>
                    (let c1 = c\<lparr>shards := (shards c)[i := sh]\<rparr>;
                         c2 = (if evicted then c1\<lparr>len := len c1 + (- 1)\<rparr> else c1);
                         c3 = c2\<lparr>len := len c2 + 1\<rparr>
                     in Inr ((k, None), c3)))))"

definition cache_Set :: "key \<Rightarrow> val \<Rightarrow> LRUCache \<Rightarrow> fault + ((key \<times> err) \<times> LRUCache)" where
  "cache_Set k v c =
     (case Status c of
        Closed \<Rightarrow> Inr (([], Some ''cache is closed''), c)
      | Stopped \<Rightarrow> Inr (([], Some ''cache is stopped, must be started before calling method Set()''), c)
      | _ \<Rightarrow>
          (case (if k = [] then generateKey_of c v else Inr k) of
             Inl e \<Rightarrow> Inl e
           | Inr k' \<Rightarrow> route_and_Set k' v 0 c))"

text \<open>
  \<open>SetWithTTL\<close>: \<open>now\<close> is the reading of the clock; the duration is a \<open>uint\<close>,
  converted to \<open>time.Duration\<close> (an \<open>int64\<close>) and multiplied by \<open>time.Second\<close>.
\<close>

definition cache_SetWithTTL :: "time \<Rightarrow> key \<Rightarrow> val \<Rightarrow> 64 word \<Rightarrow> LRUCache \<Rightarrow> fault + ((key \<times> err) \<times> LRUCache)" where
  "cache_SetWithTTL now k v duration c =
     (case Status c of
        Closed \<Rightarrow> Inr (([], Some ''cache is closed''), c)
      | Stopped \<Rightarrow> Inr (([], Some ''cache is stopped, must be started before calling method SetWithTTL()''), c)
      | _ \<Rightarrow>
          (case (if k = [] then generateKey_of c v else Inr k) of
             Inl e \<Rightarrow> Inl e
           | Inr k' \<Rightarrow>
               (let ttl = (if duration \<noteq> 0
                           then now + sint (duration * 1000000000)
                           else now + sint (expiryDurationInSeconds c * 1000000000))
                in route_and_Set k' v ttl c)))"

definition cache_Get :: "key \<Rightarrow> LRUCache \<Rightarrow> fault + ((val \<times> err) \<times> LRUCache)" where
  "cache_Get k c =
     (case Status c of
        Closed \<Rightarrow> Inr (([], Some ''cache is closed''), c)
      | Stopped \<Rightarrow> Inr (([], Some ''cache is stopped, must be started before calling method Get()''), c)
      | _ \<Rightarrow>
          (case generateShardId_of c k (maxItems c) of
             Inl e \<Rightarrow> Inl e
           | Inr shardId \<Rightarrow>
               (case shard_index c shardId of
                  Inl e \<Rightarrow> Inl e
                | Inr i \<Rightarrow>
                    (case shard_Get k (shards c ! i) of
                       Inl e \<Rightarrow> Inl e
                     | Inr ((v, found), sh) \<Rightarrow> Inr ((v, None), c\<lparr>shards := (shards c)[i := sh]\<rparr>)))))"

definition cache_Contains :: "key \<Rightarrow> LRUCache \<Rightarrow> fault + ((bool \<times> err) \<times> LRUCache)" where
  "cache_Contains k c =
     (case Status c of
        Closed \<Rightarrow> Inr ((False, Some ''cache is closed''), c)
      | Stopped \<Rightarrow> Inr ((False, Some ''cache is stopped, must be started before calling method Contains()''), c)
      | _ \<Rightarrow>
          (case generateShardId_of c k (maxItems c) of
             Inl e \<Rightarrow> Inl e
           | Inr shardId \<Rightarrow>
               (case shard_index c shardId of
                  Inl e \<Rightarrow> Inl e
                | Inr i \<Rightarrow>
                    (let (found, sh) = shard_Contains k (shards c ! i)
                     in Inr ((found, None), c\<lparr>shards := (shards c)[i := sh]\<rparr>)))))"

definition cache_Peek :: "key \<Rightarrow> LRUCache \<Rightarrow> fault + ((val \<times> err) \<times> LRUCache)" where
  "cache_Peek k c =
     (case Status c of
        Closed \<Rightarrow> Inr (([], Some ''cache is closed''), c)
      | Stopped \<Rightarrow> Inr (([], Some ''cache is stopped, must be started before calling method Peek()''), c)
      | _ \<Rightarrow>
          (case generateShardId_of c k (maxItems c) of
             Inl e \<Rightarrow> Inl e
           | Inr shardId \<Rightarrow>
               (case shard_index c shardId of
                  Inl e \<Rightarrow> Inl e
                | Inr i \<Rightarrow>
                    (let ((v, found), sh) = shard_Peek k (shards c ! i)
                     in Inr ((v, None), c\<lparr>shards := (shards c)[i := sh]\<rparr>)))))"

text \<open>\<open>Remove\<close>: \<open>len.Add(-1)\<close> follows the call of the shard whatever it returns.\<close>

definition cache_Remove :: "key \<Rightarrow> LRUCache \<Rightarrow> fault + ((bool \<times> err) \<times> LRUCache)" where
  "cache_Remove k c =
     (case Status c of
        Closed \<Rightarrow> Inr ((False, Some ''cache is closed''), c)
      | Stopped \<Rightarrow> Inr ((False, Some ''cache is stopped, must be started before calling method Remove()''), c)
      | _ \<Rightarrow>
          (case generateShardId_of c k (maxItems c) of
             Inl e \<Rightarrow> Inl e
           | Inr shardId \<Rightarrow>
               (case shard_index c shardId of
                  Inl e \<Rightarrow> Inl e
                | Inr i \<Rightarrow>
                    (case shard_Remove k (shards c ! i) of
                       Inl e \<Rightarrow> Inl e
                     | Inr (removed, sh) \<Rightarrow>
                         (let c1 = c\<lparr>shards := (shards c)[i := sh]\<rparr>
                          in Inr ((removed, None), c1\<lparr>len := len c1 + (- 1)\<rparr>))))))"

definition cache_Purge :: "LRUCache \<Rightarrow> err \<times> LRUCache" where
  "cache_Purge c =
     (case Status c of
        Closed \<Rightarrow> (Some ''cache is closed'', c)
      | Started \<Rightarrow> (Some ''cache is started, must be stopped before calling method Purge()'', c)
      | _ \<Rightarrow> (None, c\<lparr>shards := map shard_Purge (shards c)\<rparr>))"

text \<open>
  \<open>cleanupShards\<close>: one goroutine per shard, joined at the end; each one sweeps its own
  shard and then does \<open>len.Add(evictCount)\<close>. The shards share nothing and the
  additions commute, so the model runs them in the order of the slice. \<open>clock i\<close> is
  the reading of the clock in the sweep of shard \<open>i\<close> and \<open>order i\<close> the order of its
  map range.
\<close>

fun cleanupShards_from :: "nat \<Rightarrow> (nat \<Rightarrow> time) \<Rightarrow> (nat \<Rightarrow> key list) \<Rightarrow> lruCacheShard list \<Rightarrow> 64 word
    \<Rightarrow> fault + (lruCacheShard list \<times> 64 word)" where
  "cleanupShards_from i clock order [] l = Inr ([], l)"
| "cleanupShards_from i clock order (sh # rest) l =
     (case CleanupShard (clock i) (order i) sh of
        Inl e \<Rightarrow> Inl e
      | Inr (evictCount, sh') \<Rightarrow>
          (case cleanupShards_from (Suc i) clock order rest (l + evictCount) of
             Inl e \<Rightarrow> Inl e
           | Inr (rest', l') \<Rightarrow> Inr (sh' # rest', l')))"

definition cleanupShards :: "(nat \<Rightarrow> time) \<Rightarrow> (nat \<Rightarrow> key list) \<Rightarrow> LRUCache \<Rightarrow> fault + LRUCache" where
  "cleanupShards clock order c =
     (case cleanupShards_from 0 clock order (shards c) (len c) of
        Inl e \<Rightarrow> Inl e
      | Inr (shs, l) \<Rightarrow> Inr (c\<lparr>shards := shs, len := l\<rparr>))"

text \<open>One firing of the ticker in \<open>cleanupTicker\<close>.\<close>

definition cleanupTick :: "(nat \<Rightarrow> time) \<Rightarrow> (nat \<Rightarrow> key list) \<Rightarrow> LRUCache \<Rightarrow> fault + LRUCache" where
  "cleanupTick clock order c =
     (if isCleanupTickerActive c then cleanupShards clock order c else Inr c)"

text \<open>
  \<open>Telemetry\<close>: the named result \<open>telemetry\<close> is a pointer that the function never
  assigns, so it is \<open>nil\<close> (\<open>None\<close>) when the loop stores into it.
\<close>

definition telemetry_store :: "counterMode \<Rightarrow> 64 word \<Rightarrow> telemetry option \<Rightarrow> fault + telemetry option" where
  "telemetry_store mode v t =
     (case t of None \<Rightarrow> Inl NilDereference | Some t' \<Rightarrow> Inr (Some (setCounter mode v t')))"

fun Telemetry_loop :: "lruCacheShard list \<Rightarrow> telemetry option \<Rightarrow> fault + telemetry option" where
  "Telemetry_loop [] t = Inr t"
| "Telemetry_loop (sh # rest) t =
     (let shardTelemetry = shard_Telemetry sh
      in case telemetry_store Hit (getCounter Hit shardTelemetry) t of Inl e \<Rightarrow> Inl e | Inr t1 \<Rightarrow>
         case telemetry_store Miss (getCounter Miss shardTelemetry) t1 of Inl e \<Rightarrow> Inl e | Inr t2 \<Rightarrow>
         case telemetry_store Add (getCounter Add shardTelemetry) t2 of Inl e \<Rightarrow> Inl e | Inr t3 \<Rightarrow>
         case telemetry_store Update (getCounter Update shardTelemetry) t3 of Inl e \<Rightarrow> Inl e | Inr t4 \<Rightarrow>
         case telemetry_store Evict (getCounter Evict shardTelemetry) t4 of Inl e \<Rightarrow> Inl e | Inr t5 \<Rightarrow>
         Telemetry_loop rest t5)"

definition cache_Telemetry :: "LRUCache \<Rightarrow> fault + (telemetry option \<times> err)" where
  "cache_Telemetry c =
     (if Status c = Closed then Inr (None, Some ''cache is closed'')
      else if \<not> telemetryOn c then Inr (None, Some ''cache telemetry is disabled'')
      else (case Telemetry_loop (shards c) None of
              Inl e \<Rightarrow> Inl e
            | Inr t \<Rightarrow> Inr (t, None)))"

definition cache_TelemetryReset :: "LRUCache \<Rightarrow> err \<times> LRUCache" where
  "cache_TelemetryReset c =
     (if Status c = Closed then (Some ''cache is closed'', c)
      else if \<not> telemetryOn c then (Some ''cache telemetry is disabled'', c)
      else (None, c\<lparr>shards := map shard_TelemetryReset (shards c)\<rparr>))"

definition Close :: "LRUCache \<Rightarrow> LRUCache" where
  "Close c = (Stop c)\<lparr>shards := [], status := Closed\<rparr>"

text \<open>
  The configuration literal \<open>defaultConfig\<close> of \<open>NewLRUCache\<close> (the values, the
  default key function and the default shard function).
\<close>

definition defaultConfig :: "(8 word list \<Rightarrow> 8 word list) \<Rightarrow> Config" where
  "defaultConfig sha1 =
     \<lparr>LoggingOn = True, TelemetryOn = True, MaxShards = 256, MaxItems = 1000000,
      ExpiryDurationInSeconds = 60 * 60 * 24, CleanupDurationInSeconds = 60 * 5,
      GenerateKey = generateKey sha1, GenerateShardId = generateShardId sha1\<rparr>"

section \<open>Observing a shard\<close>

text \<open>
  The nodes of the list in the order of a traversal with the exported methods,
  \<open>for e := l.Front(); e != nil; e = e.Next()\<close>. The traversal is cut after as many
  steps as there are allocated addresses, which bounds every chain without repetition.
\<close>

fun walk :: "memory \<Rightarrow> nat \<Rightarrow> addr option \<Rightarrow> addr list" where
  "walk m 0 e = []"
| "walk m (Suc fuel) None = []"
| "walk m (Suc fuel) (Some a) = a # walk m fuel (lruListNode_Next a m)"

definition linked :: "lruCacheShard \<Rightarrow> addr list" where
  "linked s = walk (s_mem s) (fresh (s_mem s)) (lruList_Front (s_list s) (s_mem s))"

text \<open>The keys of the list, most recently used first.\<close>

definition recency :: "lruCacheShard \<Rightarrow> key list" where
  "recency s = map (\<lambda>a. Key (node_at (s_mem s) a)) (linked s)"

text \<open>Sequences of operations on one shard, each with the arguments of its call.\<close>

datatype shard_op =
    OpSet "64 word" key val time
  | OpGet key
  | OpPeek key
  | OpContains key
  | OpRemove key
  | OpCleanupShard time "key list"
  | OpPurge

fun run_op :: "shard_op \<Rightarrow> lruCacheShard \<Rightarrow> fault + lruCacheShard" where
  "run_op (OpSet cacheLen k v ttl) s =
     (case shard_Set cacheLen k v ttl s of Inl e \<Rightarrow> Inl e | Inr (r, s') \<Rightarrow> Inr s')"
| "run_op (OpGet k) s =
     (case shard_Get k s of Inl e \<Rightarrow> Inl e | Inr (r, s') \<Rightarrow> Inr s')"
| "run_op (OpPeek k) s = Inr (snd (shard_Peek k s))"
| "run_op (OpContains k) s = Inr (snd (shard_Contains k s))"
| "run_op (OpRemove k) s =
     (case shard_Remove k s of Inl e \<Rightarrow> Inl e | Inr (r, s') \<Rightarrow> Inr s')"
| "run_op (OpCleanupShard now order) s =
     (case CleanupShard now order s of Inl e \<Rightarrow> Inl e | Inr (r, s') \<Rightarrow> Inr s')"
| "run_op OpPurge s = Inr (shard_Purge s)"

fun run_ops :: "shard_op list \<Rightarrow> lruCacheShard \<Rightarrow> fault + lruCacheShard" where
  "run_ops [] s = Inr s"
| "run_ops (op # ops) s =
     (case run_op op s of Inl e \<Rightarrow> Inl e | Inr s' \<Rightarrow> run_ops ops s')"

section \<open>The shape of a well-formed shard\<close>

text \<open>
  \<open>adj h [a, b, c, \<dots>]\<close>: each node points forward to the next one of the sequence
  and each next one points back.
\<close>

fun adj :: "(addr \<Rightarrow> lruListNode) \<Rightarrow> addr list \<Rightarrow> bool" where
  "adj h (a # b # r) = (n_next (h a) = Some b \<and> n_prev (h b) = Some a \<and> adj h (b # r))"
| "adj h _ = True"

text \<open>
  \<open>ring m ll xs\<close>: the list header \<open>ll\<close> holds exactly the nodes \<open>xs\<close>, front
  first, in a ring closed by its root.
\<close>

definition ring :: "memory \<Rightarrow> addr \<Rightarrow> addr list \<Rightarrow> bool" where
  "ring m ll xs =
     (adj (node_at m) (root (list_at m ll) # xs @ [root (list_at m ll)]) \<and>
      distinct (root (list_at m ll) # xs) \<and>
      l_len (list_at m ll) = int (length xs) \<and>
      (\<forall>a\<in>set xs. n_list (node_at m a) = Some ll) \<and>
      (\<forall>a\<in>set (root (list_at m ll) # xs). a < fresh m))"

definition same_payload :: "memory \<Rightarrow> memory \<Rightarrow> bool" where
  "same_payload m m' =
     (\<forall>a. Key (node_at m' a) = Key (node_at m a) \<and> Value (node_at m' a) = Value (node_at m a) \<and>
          TTL (node_at m' a) = TTL (node_at m a))"

text \<open>
  \<open>shard_abs s xs\<close>: the list of the shard is the ring \<open>xs\<close>, and the map and the
  list index the same nodes under their own keys.
\<close>

definition shard_abs :: "lruCacheShard \<Rightarrow> addr list \<Rightarrow> bool" where
  "shard_abs s xs =
     (ring (s_mem s) (s_list s) xs \<and>
      (\<forall>k a. s_nodes s k = Some a \<longrightarrow> a \<in> set xs \<and> Key (node_at (s_mem s) a) = k) \<and>
      (\<forall>a\<in>set xs. s_nodes s (Key (node_at (s_mem s) a)) = Some a))"

text \<open>An entry is due at \<open>now\<close>: the test of the sweep, \<open>TTL.Before(now) && !TTL.IsZero()\<close>.\<close>

definition due :: "time \<Rightarrow> lruCacheShard \<Rightarrow> key \<Rightarrow> bool" where
  "due now s k =
     (case s_nodes s k of
        None \<Rightarrow> False
      | Some item \<Rightarrow> TTL (node_at (s_mem s) item) < now \<and> TTL (node_at (s_mem s) item) \<noteq> 0)"

text \<open>Fields of a shard that no operation but \<open>Purge\<close> and \<open>TelemetryReset\<close> assigns.\<close>

definition same_config :: "lruCacheShard \<Rightarrow> lruCacheShard \<Rightarrow> bool" where
  "same_config s s' =
     (s_id s' = s_id s \<and> s_maxItems s' = s_maxItems s \<and> s_loggingOn s' = s_loggingOn s \<and>
      s_telemetryOn s' = s_telemetryOn s \<and> s_telemetry s' = s_telemetry s \<and> s_list s' = s_list s)"

text \<open>The calls that one guarded callback adds: one when the telemetry flag is set, else none.\<close>

definition hook_if :: "lruCacheShard \<Rightarrow> hook_call \<Rightarrow> hook_call list" where
  "hook_if s c = (if s_telemetryOn s then [c] else [])"

text \<open>The SHA-1 digest of the one-byte input \<open>a\<close>, \<open>86f7e437faa5a7fce15d1ddcb9eaeaea377667b8\<close>.\<close>

definition sha1_of_a :: "8 word list" where
  "sha1_of_a = [134, 247, 228, 55, 250, 165, 167, 252, 225, 93,
                29, 220, 185, 234, 234, 234, 55, 118, 103, 184]"

text \<open>
  A configuration with a single shard, a capacity of two items and a shard function of
  the user that routes every key to shard 0.
\<close>

definition cfg1 :: Config where
  "cfg1 = \<lparr>LoggingOn = True, TelemetryOn = True, MaxShards = 1, MaxItems = 2,
     ExpiryDurationInSeconds = 86400, CleanupDurationInSeconds = 300,
     GenerateKey = (\<lambda>_. Inl TypeAssertion), GenerateShardId = (\<lambda>_ _. Inr 0)\<rparr>"

text \<open>
  Sequences of calls of the public operations by a single caller, each with its
  arguments. The Go results are dropped; a call that returns an error leaves the cache
  as it was, and a fault ends the run.
\<close>

datatype cache_op =
    CSet key val
  | CSetWithTTL time key val "64 word"
  | CGet key
  | CContains key
  | CPeek key
  | CRemove key
  | CPurge
  | CCleanupTick "nat \<Rightarrow> time" "nat \<Rightarrow> key list"
  | CTelemetryReset
  | CStart
  | CStop

fun cache_run_op :: "cache_op \<Rightarrow> LRUCache \<Rightarrow> fault + LRUCache" where
  "cache_run_op (CSet k v) c =
     (case cache_Set k v c of Inl e \<Rightarrow> Inl e | Inr (r, c') \<Rightarrow> Inr c')"
| "cache_run_op (CSetWithTTL now k v d) c =
     (case cache_SetWithTTL now k v d c of Inl e \<Rightarrow> Inl e | Inr (r, c') \<Rightarrow> Inr c')"
| "cache_run_op (CGet k) c =
     (case cache_Get k c of Inl e \<Rightarrow> Inl e | Inr (r, c') \<Rightarrow> Inr c')"
| "cache_run_op (CContains k) c =
     (case cache_Contains k c of Inl e \<Rightarrow> Inl e | Inr (r, c') \<Rightarrow> Inr c')"
| "cache_run_op (CPeek k) c =
     (case cache_Peek k c of Inl e \<Rightarrow> Inl e | Inr (r, c') \<Rightarrow> Inr c')"
| "cache_run_op (CRemove k) c =
     (case cache_Remove k c of Inl e \<Rightarrow> Inl e | Inr (r, c') \<Rightarrow> Inr c')"
| "cache_run_op CPurge c = Inr (snd (cache_Purge c))"
| "cache_run_op (CCleanupTick clock order) c = cleanupTick clock order c"
| "cache_run_op CTelemetryReset c = Inr (snd (cache_TelemetryReset c))"
| "cache_run_op CStart c = Inr (Start c)"
| "cache_run_op CStop c = Inr (Stop c)"

fun cache_run_ops :: "cache_op list \<Rightarrow> LRUCache \<Rightarrow> fault + LRUCache" where
  "cache_run_ops [] c = Inr c"
| "cache_run_ops (op # ops) c =
     (case cache_run_op op c of Inl e \<Rightarrow> Inl e | Inr c' \<Rightarrow> cache_run_ops ops c')"

text \<open>The number of entries that the shards hold together: the sum of \<open>len(shard.nodes)\<close>.\<close>

definition total_entries :: "LRUCache \<Rightarrow> nat" where
  "total_entries c = sum_list (map (\<lambda>s. card (dom (s_nodes s))) (shards c))"

section \<open>Properties of the recency list\<close>

lemma adj_app: "adj h (as @ b # cs) = (adj h (as @ [b]) \<and> adj h (b # cs))"
proof (induction as rule: induct_list012)
  case 1 show ?case by simp
next
  case (2 a) show ?case by simp
next
  case (3 a a' r) then show ?case by simp
qed

lemma adj_frame:
  "\<forall>a\<in>set (butlast r). n_next (h' a) = n_next (h a) \<Longrightarrow>
   \<forall>b\<in>set (tl r). n_prev (h' b) = n_prev (h b) \<Longrightarrow> adj h' r = adj h r"
  by (induction h r rule: adj.induct) auto

lemma adj_unlink:
  assumes "adj h (A @ p # x # n # B)"
    and "distinct (butlast (A @ p # x # n # B))" and "distinct (tl (A @ p # x # n # B))"
    and "\<forall>a. a \<noteq> p \<longrightarrow> a \<noteq> x \<longrightarrow> n_next (h' a) = n_next (h a)" "n_next (h' p) = Some n"
    and "\<forall>a. a \<noteq> n \<longrightarrow> a \<noteq> x \<longrightarrow> n_prev (h' a) = n_prev (h a)" "n_prev (h' n) = Some p"
  shows "adj h' (A @ p # n # B)"
proof -
  have 1: "adj h (A @ [p])" and 2: "adj h (n # B)"
    using assms(1) adj_app[of h A p "x # n # B"] adj_app[of h "[p, x]" n B] by auto
  have d1: "distinct (A @ p # x # butlast (n # B))"
    using assms(2) by (simp add: butlast_append)
  have d2: "distinct (tl (A @ [p]) @ x # n # B)"
    using assms(3) by (cases A) auto
  have "\<forall>a\<in>set (butlast (A @ [p])). n_next (h' a) = n_next (h a)"
    using d1 assms(4) by auto
  moreover have "\<forall>b\<in>set (tl (A @ [p])). n_prev (h' b) = n_prev (h b)"
    using d2 assms(6) by auto
  ultimately have 3: "adj h' (A @ [p])"
    using 1 adj_frame[of "A @ [p]" h' h] by blast
  have "\<forall>a\<in>set (butlast (n # B)). n_next (h' a) = n_next (h a)"
    using d1 assms(4) by auto
  moreover have "\<forall>b\<in>set (tl (n # B)). n_prev (h' b) = n_prev (h b)"
    using d2 assms(6) by auto
  ultimately have 4: "adj h' (n # B)"
    using 2 adj_frame[of "n # B" h' h] by blast
  show ?thesis
    using 3 4 assms(5,7) adj_app[of h' A p "n # B"] by simp
qed

lemma adj_link_front:
  assumes "adj h (r # n # B)"
    and "distinct (butlast (r # n # B))" and "distinct (tl (r # n # B))"
    and "x \<notin> set (r # n # B)"
    and "\<forall>a. a \<noteq> r \<longrightarrow> a \<noteq> x \<longrightarrow> n_next (h' a) = n_next (h a)" "n_next (h' r) = Some x" "n_next (h' x) = Some n"
    and "\<forall>a. a \<noteq> n \<longrightarrow> a \<noteq> x \<longrightarrow> n_prev (h' a) = n_prev (h a)" "n_prev (h' n) = Some x" "n_prev (h' x) = Some r"
  shows "adj h' (r # x # n # B)"
proof -
  have "\<forall>a\<in>set (butlast (n # B)). n_next (h' a) = n_next (h a)"
    using assms(2,4,5) by (auto dest: in_set_butlastD)
  moreover have "\<forall>b\<in>set (tl (n # B)). n_prev (h' b) = n_prev (h b)"
    using assms(3,4,8) by auto
  ultimately have "adj h' (n # B)"
    using assms(1) adj_frame[of "n # B" h' h] by auto
  then show ?thesis using assms by simp
qed


lemma set_next_simps [simp]:
  "n_next (node_at (set_next p v m) a) = (if a = p then v else n_next (node_at m a))"
  "n_prev (node_at (set_next p v m) a) = n_prev (node_at m a)"
  "n_list (node_at (set_next p v m) a) = n_list (node_at m a)"
  "Key (node_at (set_next p v m) a) = Key (node_at m a)"
  "Value (node_at (set_next p v m) a) = Value (node_at m a)"
  "TTL (node_at (set_next p v m) a) = TTL (node_at m a)"
  "list_at (set_next p v m) = list_at m"
  "fresh (set_next p v m) = fresh m"
  by (simp_all add: set_next_def)

lemma set_prev_simps [simp]:
  "n_next (node_at (set_prev p v m) a) = n_next (node_at m a)"
  "n_prev (node_at (set_prev p v m) a) = (if a = p then v else n_prev (node_at m a))"
  "n_list (node_at (set_prev p v m) a) = n_list (node_at m a)"
  "Key (node_at (set_prev p v m) a) = Key (node_at m a)"
  "Value (node_at (set_prev p v m) a) = Value (node_at m a)"
  "TTL (node_at (set_prev p v m) a) = TTL (node_at m a)"
  "list_at (set_prev p v m) = list_at m"
  "fresh (set_prev p v m) = fresh m"
  by (simp_all add: set_prev_def)

lemma set_list_simps [simp]:
  "n_next (node_at (set_list p v m) a) = n_next (node_at m a)"
  "n_prev (node_at (set_list p v m) a) = n_prev (node_at m a)"
  "n_list (node_at (set_list p v m) a) = (if a = p then v else n_list (node_at m a))"
  "Key (node_at (set_list p v m) a) = Key (node_at m a)"
  "Value (node_at (set_list p v m) a) = Value (node_at m a)"
  "TTL (node_at (set_list p v m) a) = TTL (node_at m a)"
  "list_at (set_list p v m) = list_at m"
  "fresh (set_list p v m) = fresh m"
  by (simp_all add: set_list_def)

lemma set_len_simps [simp]:
  "node_at (set_len ll v m) = node_at m"
  "root (list_at (set_len ll v m) l) = root (list_at m l)"
  "l_len (list_at (set_len ll v m) l) = (if l = ll then v else l_len (list_at m l))"
  "fresh (set_len ll v m) = fresh m"
  by (simp_all add: set_len_def)

lemma ring_list_butlast: "distinct (r # xs) \<Longrightarrow> r # xs @ [r] = L \<Longrightarrow> distinct (butlast L)"
  using butlast_snoc[of "r # xs" r] by auto

lemma ring_list_tl: "distinct (r # xs) \<Longrightarrow> r # xs @ [r] = L \<Longrightarrow> distinct (tl L)"
  by auto

lemma ring_list_split:
  "r # ys = A @ [p] \<Longrightarrow> zs @ [r] = n # B \<Longrightarrow> r # (ys @ x # zs) @ [r] = A @ p # x # n # B"
  "r # ys = A @ [p] \<Longrightarrow> zs @ [r] = n # B \<Longrightarrow> r # (ys @ zs) @ [r] = A @ p # n # B"
proof -
  assume 1: "r # ys = A @ [p]" and 2: "zs @ [r] = n # B"
  have "r # (ys @ x # zs) @ [r] = (r # ys) @ x # (zs @ [r])" by simp
  also have "\<dots> = A @ p # x # n # B" unfolding 1 2 by simp
  finally show "r # (ys @ x # zs) @ [r] = A @ p # x # n # B" .
  have "r # (ys @ zs) @ [r] = (r # ys) @ (zs @ [r])" by simp
  also have "\<dots> = A @ p # n # B" unfolding 1 2 by simp
  finally show "r # (ys @ zs) @ [r] = A @ p # n # B" .
qed

lemma ring_decomp:
  assumes "ring m ll xs" "xs = ys @ x # zs"
  obtains A p n B where
    "root (list_at m ll) # ys = A @ [p]" "zs @ [root (list_at m ll)] = n # B"
    "n_next (node_at m p) = Some x" "n_prev (node_at m x) = Some p"
    "n_next (node_at m x) = Some n" "n_prev (node_at m n) = Some x"
    "x \<noteq> p" "x \<noteq> n" "x \<noteq> root (list_at m ll)"
proof -
  let ?r = "root (list_at m ll)"
  obtain A p where Ap: "?r # ys = A @ [p]"
    by (metis append_butlast_last_id list.distinct(1))
  obtain n B where nB: "zs @ [?r] = n # B"
    by (cases zs) auto
  have R: "?r # xs @ [?r] = A @ p # x # n # B"
    using ring_list_split(1)[OF Ap nB] assms(2) by simp
  have a: "adj (node_at m) (A @ p # x # n # B)" and d: "distinct (?r # ys @ x # zs)"
    using assms R by (auto simp: ring_def)
  have "adj (node_at m) [p, x]" "adj (node_at m) [x, n]"
    using a adj_app[of "node_at m" A p "x # n # B"] adj_app[of "node_at m" "[p]" x "n # B"]
      adj_app[of "node_at m" "[x]" n B] by auto
  moreover have "p \<in> set (?r # ys)" using arg_cong[OF Ap, of set] by simp
  then have "x \<noteq> p" using d by auto
  moreover have "x \<noteq> n" using d nB by (cases zs) auto
  moreover have "x \<noteq> ?r" using d by auto
  ultimately show ?thesis using that Ap nB by auto
qed


lemma lruList_remove_ring:
  assumes rg: "ring m ll xs" and xs: "xs = ys @ x # zs"
  shows "\<exists>m'. lruList_remove ll x m = Inr m' \<and> ring m' ll (ys @ zs) \<and> same_payload m m' \<and>
              fresh m' = fresh m \<and> root (list_at m' ll) = root (list_at m ll) \<and>
              n_list (node_at m' x) = None \<and>
              (\<forall>a. a \<noteq> x \<longrightarrow> n_list (node_at m' a) = n_list (node_at m a))"
proof -
  let ?r = "root (list_at m ll)"
  obtain A p n B where Ap: "?r # ys = A @ [p]" and nB: "zs @ [?r] = n # B"
    and px: "n_next (node_at m p) = Some x" and xp: "n_prev (node_at m x) = Some p"
    and xn: "n_next (node_at m x) = Some n" and nx: "n_prev (node_at m n) = Some x"
    and ne: "x \<noteq> p" "x \<noteq> n" "x \<noteq> ?r"
    using ring_decomp[OF rg xs] by metis
  define m' where "m' = set_len ll (l_len (list_at m ll) - 1)
     (set_list x None (set_prev x None (set_next x None (set_prev n (Some p) (set_next p (Some n) m)))))"
  have run: "lruList_remove ll x m = Inr m'"
    using xp xn ne by (simp add: lruList_remove_def m'_def Let_def)
  have R: "?r # xs @ [?r] = A @ p # x # n # B"
    using ring_list_split(1)[OF Ap nB] xs by simp
  have R': "?r # (ys @ zs) @ [?r] = A @ p # n # B"
    using ring_list_split(2)[OF Ap nB] by simp
  have a: "adj (node_at m) (A @ p # x # n # B)" and d: "distinct (?r # xs)"
    using rg R by (auto simp: ring_def)
  have d1: "distinct (butlast (A @ p # x # n # B))"
    using ring_list_butlast[OF d R] .
  have d2: "distinct (tl (A @ p # x # n # B))"
    using ring_list_tl[OF d R] .
  have "adj (node_at m') (A @ p # n # B)"
    by (rule adj_unlink[OF a d1 d2]) (use ne in \<open>auto simp: m'_def\<close>)
  then have "ring m' ll (ys @ zs)"
    using rg R' xs ne unfolding ring_def by (auto simp: m'_def)
  moreover have "same_payload m m'" by (simp add: same_payload_def m'_def)
  ultimately show ?thesis using run by (auto simp: m'_def)
qed


lemma ring_first:
  assumes "ring m ll xs"
  obtains n B where "xs @ [root (list_at m ll)] = n # B"
    "n_next (node_at m (root (list_at m ll))) = Some n"
    "n_prev (node_at m n) = Some (root (list_at m ll))"
proof -
  obtain n B where nB: "xs @ [root (list_at m ll)] = n # B" by (cases xs) auto
  then have "adj (node_at m) (root (list_at m ll) # n # B)" using assms by (simp add: ring_def)
  then show ?thesis using that nB by simp
qed

lemma lruList_PushFront_ring:
  assumes rg: "ring m ll xs" and nw: "x \<notin> set (root (list_at m ll) # xs)" and al: "x < fresh m"
  shows "\<exists>m'. lruList_PushFront ll x m = Inr m' \<and> ring m' ll (x # xs) \<and> same_payload m m' \<and>
              fresh m' = fresh m \<and> root (list_at m' ll) = root (list_at m ll) \<and>
              (\<forall>a. a \<noteq> x \<longrightarrow> n_list (node_at m' a) = n_list (node_at m a))"
proof -
  let ?r = "root (list_at m ll)"
  obtain n B where nB: "xs @ [?r] = n # B" and rn: "n_next (node_at m ?r) = Some n"
    and nr: "n_prev (node_at m n) = Some ?r"
    using ring_first[OF rg] by metis
  have ne: "x \<noteq> ?r" "x \<noteq> n" using nw nB by (cases xs; auto)+
  define m' where "m' = set_len ll (l_len (list_at m ll) + 1)
     (set_list x (Some ll) (set_prev n (Some x) (set_next ?r (Some x) (set_next x (Some n) (set_prev x (Some ?r) m)))))"
  have run: "lruList_PushFront ll x m = Inr m'"
    using rn ne by (simp add: lruList_PushFront_def lruList_insert_def m'_def Let_def)
  have a: "adj (node_at m) (?r # n # B)" and d: "distinct (?r # xs)"
    using rg nB by (auto simp: ring_def)
  have d1: "distinct (butlast (?r # n # B))"
    using ring_list_butlast[OF d] nB by simp
  have d2: "distinct (tl (?r # n # B))"
    using ring_list_tl[OF d] nB by simp
  have "set (n # B) = set (xs @ [?r])" using nB by simp
  then have x: "x \<notin> set (?r # n # B)" using nw by auto
  have "adj (node_at m') (?r # x # n # B)"
    by (rule adj_link_front[OF a d1 d2 x]) (use ne in \<open>auto simp: m'_def\<close>)
  then have "ring m' ll (x # xs)"
    using rg nB nw ne al unfolding ring_def by (auto simp: m'_def)
  moreover have "same_payload m m'" by (simp add: same_payload_def m'_def)
  ultimately show ?thesis using run by (auto simp: m'_def)
qed

lemma lruList_Back_ring:
  assumes "ring m ll xs"
  shows "lruList_Back ll m = (if xs = [] then None else Some (last xs))"
proof (cases xs rule: rev_cases)
  case Nil
  then show ?thesis using assms by (simp add: ring_def lruList_Back_def)
next
  case (snoc ys y)
  have "adj (node_at m) ((root (list_at m ll) # ys) @ y # [root (list_at m ll)])"
    using assms snoc by (simp add: ring_def)
  then have "adj (node_at m) [y, root (list_at m ll)]"
    using adj_app[of "node_at m" "root (list_at m ll) # ys" y "[root (list_at m ll)]"] by simp
  then show ?thesis using assms snoc by (simp add: ring_def lruList_Back_def)
qed

lemma lruList_Front_ring:
  assumes "ring m ll xs"
  shows "lruList_Front ll m = (if xs = [] then None else Some (hd xs))"
  using assms by (cases xs) (auto simp: ring_def lruList_Front_def)


lemma lruList_MoveToFront_ring:
  assumes rg: "ring m ll xs" and xs: "xs = ys @ x # zs"
  shows "\<exists>m'. lruList_MoveToFront ll x m = Inr m' \<and> ring m' ll (x # ys @ zs) \<and> same_payload m m' \<and>
              fresh m' = fresh m \<and> list_at m' = list_at m \<and>
              (\<forall>a. n_list (node_at m' a) = n_list (node_at m a))"
proof (cases ys)
  case Nil
  then have "n_next (node_at m (root (list_at m ll))) = Some x"
    using rg xs by (simp add: ring_def)
  then have "lruList_MoveToFront ll x m = Inr m" by (simp add: lruList_MoveToFront_def)
  then show ?thesis using rg xs Nil by (simp add: same_payload_def)
next
  case (Cons f ys')
  let ?r = "root (list_at m ll)"
  obtain A p n B where Ap: "?r # ys = A @ [p]" and nB: "zs @ [?r] = n # B"
    and px: "n_next (node_at m p) = Some x" and xp: "n_prev (node_at m x) = Some p"
    and xn: "n_next (node_at m x) = Some n" and nx: "n_prev (node_at m n) = Some x"
    and ne: "x \<noteq> p" "x \<noteq> n" "x \<noteq> ?r"
    using ring_decomp[OF rg xs] by metis
  have d: "distinct (?r # xs)" and xl: "n_list (node_at m x) = Some ll"
    using rg xs by (auto simp: ring_def)
  have rf: "n_next (node_at m ?r) = Some f" and fr: "n_prev (node_at m f) = Some ?r"
    using rg xs Cons by (auto simp: ring_def)
  have fne: "f \<noteq> x" "f \<noteq> ?r" using d xs Cons by auto
  have "last (?r # ys) = p" using Ap by simp
  then have "p \<in> set ys" using Cons last_in_set[of ys] by auto
  then have pr: "p \<noteq> ?r" using d xs by auto
  define m2 where "m2 = set_prev n (Some p) (set_next p (Some n) m)"
  define m' where "m' = set_prev f (Some x) (set_next ?r (Some x) (set_next x (Some f) (set_prev x (Some ?r) m2)))"
  have run: "lruList_MoveToFront ll x m = Inr m'"
    using xp xn ne xl rf fne pr
    by (simp add: lruList_MoveToFront_def lruList_move_def m'_def m2_def Let_def)
  have R: "?r # xs @ [?r] = A @ p # x # n # B"
    using ring_list_split(1)[OF Ap nB] xs by simp
  have a: "adj (node_at m) (A @ p # x # n # B)"
    using rg R by (auto simp: ring_def)
  have d1: "distinct (butlast (A @ p # x # n # B))"
    using ring_list_butlast[OF d R] .
  have d2: "distinct (tl (A @ p # x # n # B))"
    using ring_list_tl[OF d R] .
  have a2: "adj (node_at m2) (A @ p # n # B)"
    by (rule adj_unlink[OF a d1 d2]) (use ne in \<open>auto simp: m2_def\<close>)
  define B' where "B' = ys' @ zs @ [?r]"
  have B': "f # B' = ys @ zs @ [?r]" using Cons by (simp add: B'_def)
  have R2: "A @ p # n # B = ?r # f # B'"
    using ring_list_split(2)[OF Ap nB] B' by simp
  have dd: "distinct (?r # ys @ zs)" and xx: "x \<notin> set (?r # ys @ zs)" using d xs by auto
  have e1: "distinct (butlast (?r # f # B'))"
    using ring_list_butlast[OF dd] B' by simp
  have e2: "distinct (tl (?r # f # B'))"
    using ring_list_tl[OF dd] B' by simp
  have "set (f # B') = set (ys @ zs @ [?r])" using B' by simp
  then have e3: "x \<notin> set (?r # f # B')"
    using xx ne by auto
  have "adj (node_at m') (?r # x # f # B')"
    by (rule adj_link_front[OF a2[unfolded R2] e1 e2 e3]) (use ne fne pr in \<open>auto simp: m'_def m2_def\<close>)
  then have "ring m' ll (x # ys @ zs)"
    using rg B' xs ne unfolding ring_def by (auto simp: m'_def m2_def)
  moreover have "same_payload m m'" by (simp add: same_payload_def m'_def m2_def)
  ultimately show ?thesis using run by (auto simp: m'_def m2_def)
qed

section \<open>Properties of the shard\<close>

lemma ring_cong:
  assumes "ring m ll xs"
    and "\<forall>a\<in>set (root (list_at m ll) # xs). node_at m' a = node_at m a"
    and "list_at m' ll = list_at m ll" and "fresh m \<le> fresh m'"
  shows "ring m' ll xs"
proof -
  let ?R = "root (list_at m ll) # xs @ [root (list_at m ll)]"
  have "adj (node_at m') ?R = adj (node_at m) ?R"
    by (rule adj_frame) (use assms(2) in \<open>auto dest: in_set_butlastD\<close>)
  then show ?thesis using assms unfolding ring_def by fastforce
qed

lemma newLRUList_ring:
  assumes "newLRUList m = (ll, m')"
  shows "ring m' ll [] \<and> ll = Suc (fresh m) \<and> fresh m' = Suc (Suc (fresh m)) \<and>
         (\<forall>a. a < fresh m \<longrightarrow> node_at m' a = node_at m a)"
  using assms by (auto simp: newLRUList_def newLRUListNode_def Let_def ring_def set_next_def set_prev_def set_len_def)

lemma ring_length_less:
  assumes "ring m ll xs" shows "length xs < fresh m"
proof -
  have "set (root (list_at m ll) # xs) \<subseteq> {..< fresh m}" and "distinct (root (list_at m ll) # xs)"
    using assms by (auto simp: ring_def)
  then have "card (set (root (list_at m ll) # xs)) \<le> card {..< fresh m}"
    using card_mono by blast
  then show ?thesis using \<open>distinct (root (list_at m ll) # xs)\<close> distinct_card[of "root (list_at m ll) # xs"]
    by simp
qed

lemma walk_chain:
  assumes "adj (node_at m) (a # rest @ [root (list_at m ll)])"
    and "\<forall>b\<in>set (a # rest). n_list (node_at m b) = Some ll \<and> b \<noteq> root (list_at m ll)"
    and "length (a # rest) \<le> fuel"
  shows "walk m fuel (Some a) = a # rest"
  using assms
proof (induction rest arbitrary: a fuel)
  case Nil
  then obtain f where "fuel = Suc f" by (cases fuel) auto
  then show ?case using Nil by (cases f) (auto simp: lruListNode_Next_def)
next
  case (Cons b rest)
  then obtain f where f: "fuel = Suc f" by (cases fuel) auto
  have "lruListNode_Next a m = Some b" using Cons.prems by (auto simp: lruListNode_Next_def)
  moreover have "walk m f (Some b) = b # rest"
    by (rule Cons.IH) (use Cons.prems f in auto)
  ultimately show ?case using f by simp
qed

lemma ring_walk:
  assumes "ring m ll xs" and "length xs \<le> fuel"
  shows "walk m fuel (lruList_Front ll m) = xs"
proof (cases xs)
  case Nil
  then show ?thesis using assms by (cases fuel) (auto simp: lruList_Front_ring)
next
  case (Cons a rest)
  have "walk m fuel (Some a) = a # rest"
    by (rule walk_chain[where ll = ll]) (use assms Cons in \<open>auto simp: ring_def\<close>)
  then show ?thesis using assms Cons by (simp add: lruList_Front_ring)
qed

lemma shard_abs_linked: "shard_abs s xs \<Longrightarrow> linked s = xs"
  unfolding linked_def shard_abs_def
  using ring_walk ring_length_less by (metis less_imp_le_nat)

lemma shard_abs_dom:
  assumes "shard_abs s xs"
  shows "dom (s_nodes s) = (\<lambda>a. Key (node_at (s_mem s) a)) ` set xs"
    and "inj_on (\<lambda>a. Key (node_at (s_mem s) a)) (set xs)"
proof -
  show "dom (s_nodes s) = (\<lambda>a. Key (node_at (s_mem s) a)) ` set xs"
    using assms unfolding shard_abs_def by (auto simp: image_iff)
  show "inj_on (\<lambda>a. Key (node_at (s_mem s) a)) (set xs)"
    using assms unfolding shard_abs_def inj_on_def by (metis option.inject)
qed

lemma shard_abs_card:
  assumes "shard_abs s xs"
  shows "card (dom (s_nodes s)) = length xs" and "finite (dom (s_nodes s))"
proof -
  have "distinct xs" using assms by (auto simp: shard_abs_def ring_def)
  then show "card (dom (s_nodes s)) = length xs"
    using shard_abs_dom[OF assms] by (simp add: card_image distinct_card)
  show "finite (dom (s_nodes s))" using shard_abs_dom(1)[OF assms] by simp
qed

lemma newLRUCacheShard_abs: "shard_abs (newLRUCacheShard config i) []"
proof -
  obtain ll m where n: "newLRUList empty_memory = (ll, m)" by (cases "newLRUList empty_memory")
  have "ring m ll []" using newLRUList_ring[OF n] by blast
  then show ?thesis using n by (simp add: newLRUCacheShard_def shard_abs_def)
qed

lemma getItemFromPool_abs:
  assumes "shard_abs s xs"
  shows "\<exists>m1. getItemFromPool k v ttl s = (fresh (s_mem s), s\<lparr>s_mem := m1\<rparr>) \<and>
           shard_abs (s\<lparr>s_mem := m1\<rparr>) xs \<and> fresh m1 = Suc (fresh (s_mem s)) \<and>
           (\<forall>a. a \<noteq> fresh (s_mem s) \<longrightarrow> node_at m1 a = node_at (s_mem s) a) \<and>
           list_at m1 = list_at (s_mem s) \<and>
           fresh (s_mem s) \<notin> set (root (list_at m1 (s_list s)) # xs) \<and>
           Key (node_at m1 (fresh (s_mem s))) = k \<and> Value (node_at m1 (fresh (s_mem s))) = v \<and>
           TTL (node_at m1 (fresh (s_mem s))) = ttl"
proof -
  define m1 where "m1 = (s_mem s)\<lparr>node_at := (node_at (s_mem s))(fresh (s_mem s) := zero_node\<lparr>Key := k, Value := v, TTL := ttl\<rparr>),
      fresh := Suc (fresh (s_mem s))\<rparr>"
  have run: "getItemFromPool k v ttl s = (fresh (s_mem s), s\<lparr>s_mem := m1\<rparr>)"
    by (simp add: getItemFromPool_def newLRUListNode_def m1_def)
  have rg: "ring (s_mem s) (s_list s) xs" using assms by (simp add: shard_abs_def)
  then have lt: "\<forall>a\<in>set (root (list_at (s_mem s) (s_list s)) # xs). a < fresh (s_mem s)"
    by (simp add: ring_def)
  have "ring m1 (s_list s) xs"
    by (rule ring_cong[OF rg]) (use lt in \<open>auto simp: m1_def\<close>)
  moreover have "\<forall>a\<in>set xs. node_at m1 a = node_at (s_mem s) a"
    using lt by (auto simp: m1_def)
  ultimately have "shard_abs (s\<lparr>s_mem := m1\<rparr>) xs"
    using assms unfolding shard_abs_def by simp
  then show ?thesis using run lt by (auto simp: m1_def)
qed

lemma removeItem_abs:
  assumes ab: "shard_abs s xs" and xs: "xs = ys @ item # zs"
  shows "\<exists>m'. removeItem item s =
            Inr (s\<lparr>s_mem := m', s_nodes := (s_nodes s)(Key (node_at (s_mem s) item) := None),
                   s_calls := s_calls s @ (if s_telemetryOn s
                      then [OnEvict (s_loggingOn s) (Key (node_at (s_mem s) item))] else [])\<rparr>) \<and>
           shard_abs (s\<lparr>s_mem := m', s_nodes := (s_nodes s)(Key (node_at (s_mem s) item) := None),
                   s_calls := s_calls s @ (if s_telemetryOn s
                      then [OnEvict (s_loggingOn s) (Key (node_at (s_mem s) item))] else [])\<rparr>) (ys @ zs) \<and>
           same_payload (s_mem s) m' \<and> fresh m' = fresh (s_mem s)"
proof -
  have rg: "ring (s_mem s) (s_list s) xs" using ab by (simp add: shard_abs_def)
  have il: "n_list (node_at (s_mem s) item) = Some (s_list s)"
    using rg xs by (simp add: ring_def)
  obtain m' where rm: "lruList_remove (s_list s) item (s_mem s) = Inr m'"
    and rg': "ring m' (s_list s) (ys @ zs)" and sp: "same_payload (s_mem s) m'"
    and fr: "fresh m' = fresh (s_mem s)"
    using lruList_remove_ring[OF rg xs] by blast
  have run: "removeItem item s =
            Inr (s\<lparr>s_mem := m', s_nodes := (s_nodes s)(Key (node_at (s_mem s) item) := None),
                   s_calls := s_calls s @ (if s_telemetryOn s
                      then [OnEvict (s_loggingOn s) (Key (node_at (s_mem s) item))] else [])\<rparr>)"
    using rm il sp by (simp add: removeItem_def lruList_Remove_def same_payload_def)
  have d: "distinct xs" using rg by (simp add: ring_def)
  have inj: "inj_on (\<lambda>a. Key (node_at (s_mem s) a)) (set xs)" by (rule shard_abs_dom(2)[OF ab])
  have k: "\<forall>a\<in>set (ys @ zs). Key (node_at (s_mem s) a) \<noteq> Key (node_at (s_mem s) item)"
    using inj d xs unfolding inj_on_def by auto
  have "shard_abs (s\<lparr>s_mem := m', s_nodes := (s_nodes s)(Key (node_at (s_mem s) item) := None),
                   s_calls := s_calls s @ (if s_telemetryOn s
                      then [OnEvict (s_loggingOn s) (Key (node_at (s_mem s) item))] else [])\<rparr>) (ys @ zs)"
    using ab rg' sp k xs unfolding shard_abs_def same_payload_def by auto
  then show ?thesis using run sp fr by blast
qed

lemma call_hook_eq: "call_hook c s = s\<lparr>s_calls := s_calls s @ hook_if s c\<rparr>"
  by (simp add: call_hook_def hook_if_def)

lemma shard_abs_calls [simp]: "shard_abs (s\<lparr>s_calls := c\<rparr>) xs = shard_abs s xs"
  by (simp add: shard_abs_def)

lemma shard_Set_update:
  assumes ab: "shard_abs s xs" and pr: "s_nodes s k = Some item"
  shows "\<exists>s' ys zs. shard_Set cacheLen k v ttl s = Inr ((False, False), s') \<and>
           xs = ys @ item # zs \<and> shard_abs s' (item # ys @ zs) \<and> s_nodes s' = s_nodes s \<and>
           same_config s s' \<and> s_calls s' = s_calls s @ hook_if s (OnUpdate (s_loggingOn s) k) \<and>
           Value (node_at (s_mem s') item) = v \<and> TTL (node_at (s_mem s') item) = ttl \<and>
           (\<forall>a. a \<noteq> item \<longrightarrow> a < fresh (s_mem s) \<longrightarrow>
               Value (node_at (s_mem s') a) = Value (node_at (s_mem s) a) \<and>
               TTL (node_at (s_mem s') a) = TTL (node_at (s_mem s) a))"
proof -
  have ix: "item \<in> set xs" and ik: "Key (node_at (s_mem s) item) = k"
    using ab pr by (auto simp: shard_abs_def)
  then obtain ys zs where xs: "xs = ys @ item # zs" by (meson split_list)
  obtain m1 where g: "getItemFromPool k v ttl s = (fresh (s_mem s), s\<lparr>s_mem := m1\<rparr>)"
    and ab1: "shard_abs (s\<lparr>s_mem := m1\<rparr>) xs"
    and old: "\<forall>a. a \<noteq> fresh (s_mem s) \<longrightarrow> node_at m1 a = node_at (s_mem s) a"
    using getItemFromPool_abs[OF ab] by blast
  have rg1: "ring m1 (s_list s) xs" using ab1 by (simp add: shard_abs_def)
  obtain m2 where mv: "lruList_MoveToFront (s_list s) item m1 = Inr m2"
    and rg2: "ring m2 (s_list s) (item # ys @ zs)" and sp: "same_payload m1 m2"
    and fr: "fresh m2 = fresh m1" and la: "list_at m2 = list_at m1"
    and nl: "\<forall>a. n_list (node_at m2 a) = n_list (node_at m1 a)"
    using lruList_MoveToFront_ring[OF rg1 xs] by blast
  define m3 where "m3 = m2\<lparr>node_at := (node_at m2)(item := (node_at m2 item)\<lparr>Value := v, TTL := ttl\<rparr>)\<rparr>"
  define s' where "s' = s\<lparr>s_mem := m3, s_calls := s_calls s @ hook_if s (OnUpdate (s_loggingOn s) k)\<rparr>"
  have lt: "item < fresh (s_mem s)" using ab ix by (auto simp: shard_abs_def ring_def)
  have k2: "Key (node_at m2 item) = k" using sp old ik lt by (simp add: same_payload_def)
  have run: "shard_Set cacheLen k v ttl s = Inr ((False, False), s')"
    using g pr mv k2 by (simp add: shard_Set_def call_hook_eq s'_def m3_def hook_if_def)
  have "adj (node_at m3) (root (list_at m2 (s_list s)) # (item # ys @ zs) @ [root (list_at m2 (s_list s))])
      = adj (node_at m2) (root (list_at m2 (s_list s)) # (item # ys @ zs) @ [root (list_at m2 (s_list s))])"
    by (rule adj_frame) (auto simp: m3_def)
  then have rg3: "ring m3 (s_list s) (item # ys @ zs)"
    using rg2 unfolding ring_def by (auto simp: m3_def)
  have keys: "\<forall>a. Key (node_at m3 a) = Key (node_at m1 a)"
    using sp by (auto simp: m3_def same_payload_def)
  have "shard_abs s' (item # ys @ zs)"
    using ab1 rg3 keys xs unfolding shard_abs_def s'_def by auto
  moreover have "\<forall>a. a \<noteq> item \<longrightarrow> a < fresh (s_mem s) \<longrightarrow>
               Value (node_at (s_mem s') a) = Value (node_at (s_mem s) a) \<and>
               TTL (node_at (s_mem s') a) = TTL (node_at (s_mem s) a)"
    using sp old by (auto simp: s'_def m3_def same_payload_def)
  ultimately show ?thesis
    using run xs by (auto simp: s'_def same_config_def m3_def)
qed

lemma shard_Set_insert:
  assumes ab: "shard_abs s xs" and np: "s_nodes s k = None"
  shows "\<exists>s4. shard_abs s4 (fresh (s_mem s) # xs) \<and> s_nodes s4 = (s_nodes s)(k \<mapsto> fresh (s_mem s)) \<and>
           same_config s s4 \<and> s_calls s4 = s_calls s @ hook_if s (OnAdd (s_loggingOn s) k) \<and>
           fresh (s_mem s4) = Suc (fresh (s_mem s)) \<and>
           Key (node_at (s_mem s4) (fresh (s_mem s))) = k \<and>
           Value (node_at (s_mem s4) (fresh (s_mem s))) = v \<and>
           TTL (node_at (s_mem s4) (fresh (s_mem s))) = ttl \<and>
           (\<forall>a. a < fresh (s_mem s) \<longrightarrow>
               Key (node_at (s_mem s4) a) = Key (node_at (s_mem s) a) \<and>
               Value (node_at (s_mem s4) a) = Value (node_at (s_mem s) a) \<and>
               TTL (node_at (s_mem s4) a) = TTL (node_at (s_mem s) a)) \<and>
           shard_Set cacheLen k v ttl s =
             (if sint (s_maxItems s) \<le> sint cacheLen
              then (case removeItemOldest s4 of Inl e \<Rightarrow> Inl e | Inr s5 \<Rightarrow> Inr ((True, False), s5))
              else Inr ((False, True), s4))"
proof -
  let ?n = "fresh (s_mem s)"
  obtain m1 where g: "getItemFromPool k v ttl s = (?n, s\<lparr>s_mem := m1\<rparr>)"
    and ab1: "shard_abs (s\<lparr>s_mem := m1\<rparr>) xs"
    and fr1: "fresh m1 = Suc ?n"
    and old: "\<forall>a. a \<noteq> ?n \<longrightarrow> node_at m1 a = node_at (s_mem s) a"
    and nw: "?n \<notin> set (root (list_at m1 (s_list s)) # xs)"
    and pl: "Key (node_at m1 ?n) = k" "Value (node_at m1 ?n) = v" "TTL (node_at m1 ?n) = ttl"
    using getItemFromPool_abs[OF ab] by blast
  have rg1: "ring m1 (s_list s) xs" using ab1 by (simp add: shard_abs_def)
  obtain m2 where pf: "lruList_PushFront (s_list s) ?n m1 = Inr m2"
    and rg2: "ring m2 (s_list s) (?n # xs)" and sp: "same_payload m1 m2"
    and fr2: "fresh m2 = fresh m1"
    using lruList_PushFront_ring[OF rg1 nw] fr1 by auto
  define s4 where "s4 = s\<lparr>s_mem := m2, s_nodes := (s_nodes s)(k \<mapsto> ?n),
     s_calls := s_calls s @ hook_if s (OnAdd (s_loggingOn s) k)\<rparr>"
  have k2: "Key (node_at m2 ?n) = k" using sp pl by (simp add: same_payload_def)
  have run: "shard_Set cacheLen k v ttl s =
             (if sint (s_maxItems s) \<le> sint cacheLen
              then (case removeItemOldest s4 of Inl e \<Rightarrow> Inl e | Inr s5 \<Rightarrow> Inr ((True, False), s5))
              else Inr ((False, True), s4))"
    using g np pf k2 by (simp add: shard_Set_def call_hook_eq s4_def hook_if_def)
  have keys: "\<forall>a. Key (node_at m2 a) = Key (node_at m1 a)"
    using sp by (auto simp: same_payload_def)
  have m1: "\<forall>k' a. s_nodes s k' = Some a \<longrightarrow> a \<in> set xs \<and> Key (node_at m1 a) = k'"
    and m2: "\<forall>a\<in>set xs. s_nodes s (Key (node_at m1 a)) = Some a"
    using ab1 by (simp_all add: shard_abs_def)
  have a1: "\<forall>k' a. ((s_nodes s)(k \<mapsto> ?n)) k' = Some a \<longrightarrow> a \<in> set (?n # xs) \<and> Key (node_at m2 a) = k'"
    using m1 keys pl(1) by (auto split: if_splits)
  have a2: "\<forall>a\<in>set (?n # xs). ((s_nodes s)(k \<mapsto> ?n)) (Key (node_at m2 a)) = Some a"
  proof
    fix a assume "a \<in> set (?n # xs)"
    then consider "a = ?n" | "a \<in> set xs" by auto
    then show "((s_nodes s)(k \<mapsto> ?n)) (Key (node_at m2 a)) = Some a"
    proof cases
      case 1 then show ?thesis using keys pl(1) by simp
    next
      case 2
      then have "s_nodes s (Key (node_at m1 a)) = Some a" using m2 by blast
      moreover from this have "Key (node_at m1 a) \<noteq> k" using np by auto
      ultimately show ?thesis using keys by simp
    qed
  qed
  have ab4: "shard_abs s4 (?n # xs)"
    unfolding shard_abs_def s4_def using rg2 a1 a2 by simp
  have pay: "\<forall>a. a < ?n \<longrightarrow>
               Key (node_at (s_mem s4) a) = Key (node_at (s_mem s) a) \<and>
               Value (node_at (s_mem s4) a) = Value (node_at (s_mem s) a) \<and>
               TTL (node_at (s_mem s4) a) = TTL (node_at (s_mem s) a)"
    using sp old by (auto simp: s4_def same_payload_def)
  have new: "Key (node_at (s_mem s4) ?n) = k" "Value (node_at (s_mem s4) ?n) = v"
     "TTL (node_at (s_mem s4) ?n) = ttl"
    using sp pl by (simp_all add: s4_def same_payload_def)
  have rest: "s_nodes s4 = (s_nodes s)(k \<mapsto> ?n)" "same_config s s4"
    "s_calls s4 = s_calls s @ hook_if s (OnAdd (s_loggingOn s) k)" "fresh (s_mem s4) = Suc ?n"
    using fr1 fr2 by (simp_all add: s4_def same_config_def)
  show ?thesis
    using ab4 pay new rest run by blast
qed

lemma removeItem_props:
  assumes ab: "shard_abs s xs" and xs: "xs = ys @ item # zs"
  shows "\<exists>s'. removeItem item s = Inr s' \<and> shard_abs s' (ys @ zs) \<and>
           s_nodes s' = (s_nodes s)(Key (node_at (s_mem s) item) := None) \<and>
           s_calls s' = s_calls s @ hook_if s (OnEvict (s_loggingOn s) (Key (node_at (s_mem s) item))) \<and>
           same_config s s' \<and> same_payload (s_mem s) (s_mem s') \<and> fresh (s_mem s') = fresh (s_mem s)"
proof -
  obtain m' where 1: "removeItem item s =
            Inr (s\<lparr>s_mem := m', s_nodes := (s_nodes s)(Key (node_at (s_mem s) item) := None),
                   s_calls := s_calls s @ (if s_telemetryOn s
                      then [OnEvict (s_loggingOn s) (Key (node_at (s_mem s) item))] else [])\<rparr>)"
    and 2: "shard_abs (s\<lparr>s_mem := m', s_nodes := (s_nodes s)(Key (node_at (s_mem s) item) := None),
                   s_calls := s_calls s @ (if s_telemetryOn s
                      then [OnEvict (s_loggingOn s) (Key (node_at (s_mem s) item))] else [])\<rparr>) (ys @ zs)"
    and 3: "same_payload (s_mem s) m'" "fresh m' = fresh (s_mem s)"
    using removeItem_abs[OF ab xs] by blast
  show ?thesis
    using 1 2 3 by (simp add: same_config_def hook_if_def)
qed

lemma removeItemOldest_props:
  assumes ab: "shard_abs s xs"
  shows "\<exists>s'. removeItemOldest s = Inr s' \<and> shard_abs s' (butlast xs) \<and>
           s_nodes s' = (if xs = [] then s_nodes s
                         else (s_nodes s)(Key (node_at (s_mem s) (last xs)) := None)) \<and>
           s_calls s' = s_calls s @ (if xs = [] then []
                         else hook_if s (OnEvict (s_loggingOn s) (Key (node_at (s_mem s) (last xs))))) \<and>
           same_config s s' \<and> same_payload (s_mem s) (s_mem s') \<and> fresh (s_mem s') = fresh (s_mem s)"
proof (cases "xs = []")
  case True
  have rg: "ring (s_mem s) (s_list s) xs" using ab by (simp add: shard_abs_def)
  have "removeItemOldest s = Inr s"
    using True lruList_Back_ring[OF rg] by (simp add: removeItemOldest_def)
  then show ?thesis using True ab by (simp add: same_config_def same_payload_def)
next
  case False
  then have xs: "xs = butlast xs @ last xs # []" by simp
  have rg: "ring (s_mem s) (s_list s) xs" using ab by (simp add: shard_abs_def)
  have "removeItemOldest s = removeItem (last xs) s"
    using False lruList_Back_ring[OF rg] by (simp add: removeItemOldest_def)
  then show ?thesis using removeItem_props[OF ab xs] False by simp
qed

lemma shard_Get_hit:
  assumes ab: "shard_abs s xs" and pr: "s_nodes s k = Some item"
  shows "\<exists>s' ys zs. shard_Get k s = Inr ((Value (node_at (s_mem s) item), True), s') \<and>
           xs = ys @ item # zs \<and> shard_abs s' (item # ys @ zs) \<and> s_nodes s' = s_nodes s \<and>
           same_config s s' \<and> s_calls s' = s_calls s @ hook_if s (OnHit (s_loggingOn s) k) \<and>
           same_payload (s_mem s) (s_mem s') \<and> fresh (s_mem s') = fresh (s_mem s)"
proof -
  have ix: "item \<in> set xs" and ik: "Key (node_at (s_mem s) item) = k"
    using ab pr by (auto simp: shard_abs_def)
  then obtain ys zs where xs: "xs = ys @ item # zs" by (meson split_list)
  have rg: "ring (s_mem s) (s_list s) xs" using ab by (simp add: shard_abs_def)
  obtain m2 where mv: "lruList_MoveToFront (s_list s) item (s_mem s) = Inr m2"
    and rg2: "ring m2 (s_list s) (item # ys @ zs)" and sp: "same_payload (s_mem s) m2"
    and fr: "fresh m2 = fresh (s_mem s)"
    using lruList_MoveToFront_ring[OF rg xs] by blast
  define s' where "s' = s\<lparr>s_mem := m2, s_calls := s_calls s @ hook_if s (OnHit (s_loggingOn s) k)\<rparr>"
  have run: "shard_Get k s = Inr ((Value (node_at (s_mem s) item), True), s')"
    using pr mv sp ik by (simp add: shard_Get_def call_hook_eq s'_def hook_if_def same_payload_def)
  have keys: "\<forall>a. Key (node_at m2 a) = Key (node_at (s_mem s) a)"
    using sp by (auto simp: same_payload_def)
  have "shard_abs s' (item # ys @ zs)"
    using ab rg2 keys xs unfolding shard_abs_def s'_def by auto
  then show ?thesis
    using run xs sp fr by (auto simp: s'_def same_config_def)
qed

lemma shard_Get_miss:
  assumes "s_nodes s k = None"
  shows "shard_Get k s = Inr (([], False), s\<lparr>s_calls := s_calls s @ hook_if s (OnMiss (s_loggingOn s) k)\<rparr>)"
  using assms by (simp add: shard_Get_def call_hook_eq)

lemma shard_Peek_eq:
  "shard_Peek k s =
     ((case s_nodes s k of Some item \<Rightarrow> (Value (node_at (s_mem s) item), True) | None \<Rightarrow> ([], False)),
      s\<lparr>s_calls := s_calls s @ hook_if s (case s_nodes s k of
           Some item \<Rightarrow> OnHit (s_loggingOn s) (Key (node_at (s_mem s) item))
         | None \<Rightarrow> OnMiss (s_loggingOn s) k)\<rparr>)"
  by (simp add: shard_Peek_def call_hook_eq hook_if_def split: option.splits)

lemma shard_Contains_eq:
  "shard_Contains k s =
     (s_nodes s k \<noteq> None,
      s\<lparr>s_calls := s_calls s @ hook_if s (case s_nodes s k of
           Some item \<Rightarrow> OnHit (s_loggingOn s) (Key (node_at (s_mem s) item))
         | None \<Rightarrow> OnMiss (s_loggingOn s) k)\<rparr>)"
  by (simp add: shard_Contains_def call_hook_eq hook_if_def split: option.splits)

lemma shard_Purge_abs:
  "shard_abs (shard_Purge s) [] \<and> s_nodes (shard_Purge s) = Map.empty \<and>
   s_calls (shard_Purge s) = s_calls s \<and> s_telemetry (shard_Purge s) = s_telemetry s \<and>
   s_maxItems (shard_Purge s) = s_maxItems s \<and> s_telemetryOn (shard_Purge s) = s_telemetryOn s \<and>
   s_loggingOn (shard_Purge s) = s_loggingOn s \<and> s_id (shard_Purge s) = s_id s"
proof -
  obtain ll m where n: "newLRUList (s_mem s) = (ll, m)" by (cases "newLRUList (s_mem s)")
  have "ring m ll []" using newLRUList_ring[OF n] by blast
  then show ?thesis using n by (simp add: shard_Purge_def shard_abs_def)
qed

lemma due_after_removeItem:
  assumes "s_nodes s' = (s_nodes s)(k := None)" and "same_payload (s_mem s) (s_mem s')"
  shows "due now s' k' = (k' \<noteq> k \<and> due now s k')"
  using assms by (auto simp: due_def same_payload_def split: option.splits)

lemma same_config_trans: "same_config s s1 \<Longrightarrow> same_config s1 s2 \<Longrightarrow> same_config s s2"
  by (simp add: same_config_def)

lemma same_payload_trans: "same_payload m m1 \<Longrightarrow> same_payload m1 m2 \<Longrightarrow> same_payload m m2"
  by (simp add: same_payload_def)

lemma CleanupShard_loop_abs:
  assumes "shard_abs s xs"
  shows "\<exists>n' s' xs'. CleanupShard_loop now order n s = Inr (n', s') \<and> shard_abs s' xs' \<and>
           same_config s s' \<and> same_payload (s_mem s) (s_mem s') \<and>
           (\<forall>k. s_nodes s' k = (if k \<in> set order \<and> due now s k then None else s_nodes s k)) \<and>
           n' = n + word_of_nat (card {k \<in> set order. due now s k})"
  using assms
proof (induction order arbitrary: s xs n)
  case Nil
  then show ?case by (auto simp: same_config_def same_payload_def)
next
  case (Cons k ks)
  show ?case
  proof (cases "due now s k")
    case False
    then have step: "CleanupShard_loop now (k # ks) n s = CleanupShard_loop now ks n s"
      by (auto simp: due_def split: option.splits)
    have "{k' \<in> set (k # ks). due now s k'} = {k' \<in> set ks. due now s k'}"
      using False by auto
    moreover have "\<And>k'. (k' \<in> set (k # ks) \<and> due now s k') = (k' \<in> set ks \<and> due now s k')"
      using False by auto
    ultimately show ?thesis
      using Cons.IH[OF Cons.prems, of n] step by simp
  next
    case True
    then obtain item where it: "s_nodes s k = Some item"
      and tt: "TTL (node_at (s_mem s) item) < now \<and> TTL (node_at (s_mem s) item) \<noteq> 0"
      by (auto simp: due_def split: option.splits)
    have ix: "item \<in> set xs" and ik: "Key (node_at (s_mem s) item) = k"
      using Cons.prems it by (auto simp: shard_abs_def)
    then obtain ys zs where xs: "xs = ys @ item # zs" by (meson split_list)
    obtain s1 where rm: "removeItem item s = Inr s1" and ab1: "shard_abs s1 (ys @ zs)"
      and n1: "s_nodes s1 = (s_nodes s)(k := None)"
      and c1: "same_config s s1" and p1: "same_payload (s_mem s) (s_mem s1)"
      using removeItem_props[OF Cons.prems xs] ik by auto
    have step: "CleanupShard_loop now (k # ks) n s = CleanupShard_loop now ks (n + 1) s1"
      using it tt rm by simp
    obtain n' s' xs' where r: "CleanupShard_loop now ks (n + 1) s1 = Inr (n', s')"
      and ab': "shard_abs s' xs'" and c': "same_config s1 s'" and p': "same_payload (s_mem s1) (s_mem s')"
      and nd: "\<forall>k'. s_nodes s' k' = (if k' \<in> set ks \<and> due now s1 k' then None else s_nodes s1 k')"
      and cnt: "n' = n + 1 + word_of_nat (card {k' \<in> set ks. due now s1 k'})"
      using Cons.IH[OF ab1, of "n + 1"] by blast
    have du: "\<And>k'. due now s1 k' = (k' \<noteq> k \<and> due now s k')"
      using due_after_removeItem[OF n1 p1] by simp
    have "{k' \<in> set (k # ks). due now s k'} = insert k {k' \<in> set ks. due now s1 k'}"
      using True du by auto
    moreover have "k \<notin> {k' \<in> set ks. due now s1 k'}" using du by simp
    ultimately have "card {k' \<in> set (k # ks). due now s k'} = Suc (card {k' \<in> set ks. due now s1 k'})"
      by simp
    then have cnt': "n' = n + word_of_nat (card {k' \<in> set (k # ks). due now s k'})"
      using cnt by simp
    have nd': "\<forall>k'. s_nodes s' k' = (if k' \<in> set (k # ks) \<and> due now s k' then None else s_nodes s k')"
      using nd n1 du True by auto
    show ?thesis
      using step r ab' same_config_trans[OF c1 c'] same_payload_trans[OF p1 p'] nd' cnt' by auto
  qed
qed

lemma run_op_abs:
  assumes "shard_abs s xs"
  shows "\<exists>s' xs'. run_op op s = Inr s' \<and> shard_abs s' xs'"
proof (cases op)
  case (OpSet cacheLen k v ttl)
  show ?thesis
  proof (cases "s_nodes s k")
    case None
    obtain s4 where ab4: "shard_abs s4 (fresh (s_mem s) # xs)"
      and run: "shard_Set cacheLen k v ttl s =
             (if sint (s_maxItems s) \<le> sint cacheLen
              then (case removeItemOldest s4 of Inl e \<Rightarrow> Inl e | Inr s5 \<Rightarrow> Inr ((True, False), s5))
              else Inr ((False, True), s4))"
      using shard_Set_insert[OF assms None, of v ttl cacheLen] by blast
    obtain s5 where "removeItemOldest s4 = Inr s5" "shard_abs s5 (butlast (fresh (s_mem s) # xs))"
      using removeItemOldest_props[OF ab4] by blast
    then show ?thesis using run ab4 OpSet by auto
  next
    case (Some item)
    then show ?thesis using shard_Set_update[OF assms Some, of cacheLen v ttl] OpSet by auto
  qed
next
  case (OpGet k)
  show ?thesis
  proof (cases "s_nodes s k")
    case None
    then show ?thesis using assms OpGet by (auto simp: shard_Get_miss)
  next
    case (Some item)
    then show ?thesis using shard_Get_hit[OF assms Some] OpGet by auto
  qed
next
  case (OpPeek k)
  then show ?thesis using assms by (auto simp: shard_Peek_eq)
next
  case (OpContains k)
  then show ?thesis using assms by (auto simp: shard_Contains_eq)
next
  case (OpRemove k)
  show ?thesis
  proof (cases "s_nodes s k")
    case None
    then show ?thesis using assms OpRemove by (auto simp: shard_Remove_def call_hook_eq)
  next
    case (Some item)
    then have "item \<in> set xs" using assms by (auto simp: shard_abs_def)
    then obtain ys zs where xs: "xs = ys @ item # zs" by (meson split_list)
    show ?thesis using removeItem_props[OF assms xs] Some OpRemove by (auto simp: shard_Remove_def)
  qed
next
  case (OpCleanupShard now order)
  then show ?thesis using CleanupShard_loop_abs[OF assms, of now order 0] by (auto simp: CleanupShard_def)
next
  case OpPurge
  then show ?thesis using shard_Purge_abs[of s] by auto
qed

lemma run_ops_abs:
  assumes "shard_abs s xs"
  shows "\<exists>s' xs'. run_ops ops s = Inr s' \<and> shard_abs s' xs'"
  using assms
proof (induction ops arbitrary: s xs)
  case Nil
  then show ?case by auto
next
  case (Cons op ops)
  obtain s1 xs1 where "run_op op s = Inr s1" "shard_abs s1 xs1"
    using run_op_abs[OF Cons.prems] by blast
  then show ?case using Cons.IH[of s1 xs1] by auto
qed

section \<open>The claims\<close>

lemmas list_defs = newLRUList_def newLRUListNode_def lruList_insert_def lruList_remove_def lruList_move_def
  lruList_Front_def lruList_Back_def lruList_Remove_def lruList_PushFront_def lruList_MoveToFront_def
  lruListNode_Next_def lruList_Len_def set_next_def set_prev_def set_list_def set_len_def zero_node_def empty_memory_def

lemmas shard_defs = newLRUCacheShard_def getItemFromPool_def removeItem_def removeItemOldest_def
  CleanupShard_def call_hook_def shard_Set_def shard_Get_def shard_Contains_def shard_Peek_def shard_Remove_def
  shard_Purge_def shard_Telemetry_def shard_TelemetryReset_def

lemma BigEndian_sha1_of_a: "BigEndian_Uint64 sha1_of_a = Inr 9725492849409370108"
  by (simp add: BigEndian_Uint64_def sha1_of_a_def)

lemma generateShardId_a:
  "sha1 (bytes_of ''a'') = sha1_of_a \<Longrightarrow> generateShardId sha1 ''a'' 1000000 = Inr 370108"
  by (simp add: generateShardId_def BigEndian_sha1_of_a)

lemma sint_MaxShards_default: "sint (MaxShards (defaultConfig sha1)) = 256"
  by (simp add: defaultConfig_def)

lemma NewLRUCache_default:
  "NewLRUCache (defaultConfig sha1) = Inr c \<Longrightarrow>
     length (shards c) = 256 \<and> maxItems c = 1000000 \<and> status c = Started \<and>
     generateShardId_of c = generateShardId sha1"
  unfolding NewLRUCache_def sint_MaxShards_default Start_def
  by (auto simp: defaultConfig_def)

lemma NewLRUCache_default_ex: "\<exists>c. NewLRUCache (defaultConfig sha1) = Inr c"
  unfolding NewLRUCache_def sint_MaxShards_default by simp

text \<open>
  C1. With the default configuration (256 shards, \<open>maxItems\<close> 1000000, the default shard
  function) the key \<open>a\<close> is routed to index 370108: the default function reduces the
  digest modulo \<open>maxItems\<close>, not modulo the number of shards. The index is outside the
  shard slice, and \<open>Set\<close>, \<open>SetWithTTL\<close>, \<open>Get\<close>, \<open>Contains\<close>, \<open>Peek\<close> and
  \<open>Remove\<close> of that key stop with an index fault.
\<close>

theorem default_routing_leaves_shard_slice:
  assumes "sha1 (bytes_of ''a'') = sha1_of_a"
  shows "\<exists>c. NewLRUCache (defaultConfig sha1) = Inr c \<and> length (shards c) = 256 \<and>
             generateShardId sha1 ''a'' (maxItems c) = Inr 370108 \<and>
             cache_Set ''a'' v c = Inl IndexOutOfRange \<and>
             cache_SetWithTTL now ''a'' v d c = Inl IndexOutOfRange \<and>
             cache_Get ''a'' c = Inl IndexOutOfRange \<and>
             cache_Contains ''a'' c = Inl IndexOutOfRange \<and>
             cache_Peek ''a'' c = Inl IndexOutOfRange \<and>
             cache_Remove ''a'' c = Inl IndexOutOfRange"
proof -
  obtain c where n: "NewLRUCache (defaultConfig sha1) = Inr c"
    using NewLRUCache_default_ex by blast
  note c = NewLRUCache_default[OF n]
  have i: "shard_index c 370108 = Inl IndexOutOfRange"
    using c by (simp add: shard_index_def)
  have g: "generateShardId_of c ''a'' (maxItems c) = Inr 370108"
    using c generateShardId_a[of sha1] assms by simp
  have "cache_Set ''a'' v c = Inl IndexOutOfRange"
    using c i g by (simp add: cache_Set_def route_and_Set_def Status_def)
  moreover have "cache_SetWithTTL now ''a'' v d c = Inl IndexOutOfRange"
    using c i g by (simp add: cache_SetWithTTL_def route_and_Set_def Status_def Let_def)
  moreover have "cache_Get ''a'' c = Inl IndexOutOfRange"
    using c i g by (simp add: cache_Get_def Status_def)
  moreover have "cache_Contains ''a'' c = Inl IndexOutOfRange"
    using c i g by (simp add: cache_Contains_def Status_def)
  moreover have "cache_Peek ''a'' c = Inl IndexOutOfRange"
    using c i g by (simp add: cache_Peek_def Status_def)
  moreover have "cache_Remove ''a'' c = Inl IndexOutOfRange"
    using c i g by (simp add: cache_Remove_def Status_def)
  ultimately show ?thesis using n c g by auto
qed

theorem default_routing_leaves_shard_slice_witness:
  "(\<lambda>_. sha1_of_a) (bytes_of ''a'') = sha1_of_a \<and>
   (\<exists>c. NewLRUCache (defaultConfig (\<lambda>_. sha1_of_a)) = Inr c \<and> length (shards c) = 256 \<and>
        generateShardId (\<lambda>_. sha1_of_a) ''a'' (maxItems c) = Inr 370108 \<and>
        cache_Set ''a'' [] c = Inl IndexOutOfRange \<and>
        cache_Get ''a'' c = Inl IndexOutOfRange)"
proof -
  have h: "(\<lambda>_. sha1_of_a) (bytes_of ''a'') = sha1_of_a" by simp
  show ?thesis
    using h default_routing_leaves_shard_slice[of "\<lambda>_. sha1_of_a" "[]" 0 0] by blast
qed

text \<open>
  C4. After every sequence of shard operations on a new shard (no operation faults), the
  number of keys of the map is the length of the list, every key of the map resolves to
  a node that the traversal of the list reaches and that carries this key and the
  back-reference of this list, and the key of every node of the list resolves to that
  node in the map; the traversal meets no node twice and as many nodes as the length says.
\<close>

theorem shard_map_and_list_agree:
  "\<exists>s'. run_ops ops (newLRUCacheShard config i) = Inr s' \<and>
        int (card (dom (s_nodes s'))) = lruList_Len (s_list s') (s_mem s') \<and>
        (\<forall>k item. s_nodes s' k = Some item \<longrightarrow>
            item \<in> set (linked s') \<and> Key (node_at (s_mem s') item) = k \<and>
            n_list (node_at (s_mem s') item) = Some (s_list s')) \<and>
        (\<forall>item\<in>set (linked s'). s_nodes s' (Key (node_at (s_mem s') item)) = Some item) \<and>
        distinct (linked s') \<and> int (length (linked s')) = lruList_Len (s_list s') (s_mem s')"
proof -
  obtain s' xs where r: "run_ops ops (newLRUCacheShard config i) = Inr s'" and ab: "shard_abs s' xs"
    using run_ops_abs[OF newLRUCacheShard_abs] by blast
  have l: "linked s' = xs" by (rule shard_abs_linked[OF ab])
  have c: "card (dom (s_nodes s')) = length xs" by (rule shard_abs_card(1)[OF ab])
  have rg: "ring (s_mem s') (s_list s') xs" using ab by (simp add: shard_abs_def)
  have 1: "int (card (dom (s_nodes s'))) = lruList_Len (s_list s') (s_mem s')"
    using c rg by (simp add: ring_def lruList_Len_def)
  have 2: "\<forall>k item. s_nodes s' k = Some item \<longrightarrow>
            item \<in> set (linked s') \<and> Key (node_at (s_mem s') item) = k \<and>
            n_list (node_at (s_mem s') item) = Some (s_list s')"
    using ab l unfolding shard_abs_def ring_def by blast
  have 3: "\<forall>item\<in>set (linked s'). s_nodes s' (Key (node_at (s_mem s') item)) = Some item"
    using ab l unfolding shard_abs_def by blast
  have 4: "distinct (linked s')" "int (length (linked s')) = lruList_Len (s_list s') (s_mem s')"
    using rg l by (simp_all add: ring_def lruList_Len_def)
  show ?thesis using r 1 2 3 4 by blast
qed

theorem shard_map_and_list_agree_witness:
  "\<exists>s'. run_ops [OpSet 0 ''a'' [1] 0, OpSet 1 ''b'' [2] 0, OpGet ''a'', OpRemove ''b'']
          (newLRUCacheShard cfg1 0) = Inr s' \<and>
        s_nodes s' ''a'' = Some 2 \<and> 2 \<in> set (linked s') \<and>
        n_list (node_at (s_mem s') 2) = Some (s_list s') \<and>
        int (card (dom (s_nodes s'))) = lruList_Len (s_list s') (s_mem s') \<and>
        s_nodes s' (Key (node_at (s_mem s') 2)) = Some 2"
proof -
  obtain s' where r: "run_ops [OpSet 0 ''a'' [1] 0, OpSet 1 ''b'' [2] 0, OpGet ''a'', OpRemove ''b'']
          (newLRUCacheShard cfg1 0) = Inr s'"
    and 1: "int (card (dom (s_nodes s'))) = lruList_Len (s_list s') (s_mem s')"
    and 2: "\<forall>k item. s_nodes s' k = Some item \<longrightarrow>
            item \<in> set (linked s') \<and> Key (node_at (s_mem s') item) = k \<and>
            n_list (node_at (s_mem s') item) = Some (s_list s')"
    and 3: "\<forall>item\<in>set (linked s'). s_nodes s' (Key (node_at (s_mem s') item)) = Some item"
    using shard_map_and_list_agree[of "[OpSet 0 ''a'' [1] 0, OpSet 1 ''b'' [2] 0, OpGet ''a'', OpRemove ''b'']" cfg1 0]
    by blast
  have "case run_ops [OpSet 0 ''a'' [1] 0, OpSet 1 ''b'' [2] 0, OpGet ''a'', OpRemove ''b'']
          (newLRUCacheShard cfg1 0) of Inl e \<Rightarrow> False | Inr s \<Rightarrow> s_nodes s ''a'' = Some 2"
    by (simp add: list_defs shard_defs cfg1_def Let_def)
  then have a: "s_nodes s' ''a'' = Some 2" using r by simp
  show ?thesis using r a 1 2 3 by blast
qed

lemmas cache_defs = NewLRUCache_def Start_def Stop_def Status_def Len_def shard_index_def route_and_Set_def
  cache_Set_def cache_SetWithTTL_def cache_Get_def cache_Contains_def cache_Peek_def cache_Remove_def
  cache_Purge_def cleanupShards_def cleanupTick_def cache_Telemetry_def cache_TelemetryReset_def Close_def

lemma NewLRUCache_cfg1:
  "NewLRUCache cfg1 = Inr
     \<lparr>maxShards = 1, maxItems = 2, len = 0, loggingOn = True, telemetryOn = False,
      expiryDurationInSeconds = 86400, cleanupDurationInSeconds = 300,
      generateKey_of = (\<lambda>_. Inl TypeAssertion), generateShardId_of = (\<lambda>_ _. Inr 0),
      status = Started, isCleanupTickerActive = True,
      shards = [newLRUCacheShard cfg1 0]\<rparr>"
  by (simp add: NewLRUCache_def cfg1_def Start_def)

lemma case_sum_Inr: "(case x of Inl e \<Rightarrow> False | Inr y \<Rightarrow> P y) \<Longrightarrow> \<exists>y. x = Inr y \<and> P y"
  by (cases x) auto

lemma lru_order_run:
  assumes "a \<noteq> b" "a \<noteq> c" "b \<noteq> c" "a \<noteq> []" "b \<noteq> []" "c \<noteq> []"
  shows "case NewLRUCache cfg1 of Inl e \<Rightarrow> False | Inr c0 \<Rightarrow>
          (case cache_run_ops [CSet a va, CSet b vb] c0 of Inl e \<Rightarrow> False | Inr c2 \<Rightarrow>
             Len c2 = maxItems c2 \<and> recency (shards c2 ! 0) = [b, a] \<and>
             (case cache_run_ops [CSet c vc] c2 of Inl e \<Rightarrow> False | Inr c3 \<Rightarrow>
                recency (shards c3 ! 0) = [c, b] \<and> s_nodes (shards c3 ! 0) a = None \<and>
                s_calls (shards c3 ! 0) = s_calls (shards c2 ! 0) @ [OnAdd True c, OnEvict True a]) \<and>
             (case cache_run_ops [CGet a, CSet c vc] c2 of Inl e \<Rightarrow> False | Inr c3' \<Rightarrow>
                recency (shards c3' ! 0) = [c, a] \<and> s_nodes (shards c3' ! 0) b = None \<and>
                s_calls (shards c3' ! 0) =
                  s_calls (shards c2 ! 0) @ [OnHit True a, OnAdd True c, OnEvict True b]))"
  unfolding NewLRUCache_cfg1 using assms
  by (simp add: cache_defs shard_defs list_defs Let_def cfg1_def recency_def linked_def)

text \<open>
  C5. Capacity 2, one shard that every key is routed to, three different keys. After
  \<open>Set a\<close> and \<open>Set b\<close> on the new cache the count has reached the threshold and the
  recency order is \<open>b, a\<close>. Then \<open>Set c\<close> evicts \<open>a\<close> (the order becomes \<open>c, b\<close>
  and the evict callback gets \<open>a\<close>); with a \<open>Get a\<close> before it, \<open>Set c\<close> evicts
  \<open>b\<close> instead (the order becomes \<open>c, a\<close>).
\<close>

theorem lru_eviction_order:
  assumes "distinct [a, b, c]" and "a \<noteq> []" "b \<noteq> []" "c \<noteq> []"
  shows "\<exists>c0 c2 c3 c3'. NewLRUCache cfg1 = Inr c0 \<and>
           cache_run_ops [CSet a va, CSet b vb] c0 = Inr c2 \<and>
           Len c2 = maxItems c2 \<and> recency (shards c2 ! 0) = [b, a] \<and>
           cache_run_ops [CSet c vc] c2 = Inr c3 \<and>
           recency (shards c3 ! 0) = [c, b] \<and> s_nodes (shards c3 ! 0) a = None \<and>
           s_calls (shards c3 ! 0) = s_calls (shards c2 ! 0) @ [OnAdd True c, OnEvict True a] \<and>
           cache_run_ops [CGet a, CSet c vc] c2 = Inr c3' \<and>
           recency (shards c3' ! 0) = [c, a] \<and> s_nodes (shards c3' ! 0) b = None \<and>
           s_calls (shards c3' ! 0) =
             s_calls (shards c2 ! 0) @ [OnHit True a, OnAdd True c, OnEvict True b]"
proof -
  have d: "a \<noteq> b" "a \<noteq> c" "b \<noteq> c" using assms(1) by auto
  note r = lru_order_run[OF d assms(2,3,4), where va = va and vb = vb and vc = vc]
  obtain c0 where c0: "NewLRUCache cfg1 = Inr c0"
    and r0: "case cache_run_ops [CSet a va, CSet b vb] c0 of Inl e \<Rightarrow> False | Inr c2 \<Rightarrow>
             Len c2 = maxItems c2 \<and> recency (shards c2 ! 0) = [b, a] \<and>
             (case cache_run_ops [CSet c vc] c2 of Inl e \<Rightarrow> False | Inr c3 \<Rightarrow>
                recency (shards c3 ! 0) = [c, b] \<and> s_nodes (shards c3 ! 0) a = None \<and>
                s_calls (shards c3 ! 0) = s_calls (shards c2 ! 0) @ [OnAdd True c, OnEvict True a]) \<and>
             (case cache_run_ops [CGet a, CSet c vc] c2 of Inl e \<Rightarrow> False | Inr c3' \<Rightarrow>
                recency (shards c3' ! 0) = [c, a] \<and> s_nodes (shards c3' ! 0) b = None \<and>
                s_calls (shards c3' ! 0) =
                  s_calls (shards c2 ! 0) @ [OnHit True a, OnAdd True c, OnEvict True b])"
    using case_sum_Inr[OF r] by blast
  obtain c2 where c2: "cache_run_ops [CSet a va, CSet b vb] c0 = Inr c2"
    and p2: "Len c2 = maxItems c2" "recency (shards c2 ! 0) = [b, a]"
    and r3: "case cache_run_ops [CSet c vc] c2 of Inl e \<Rightarrow> False | Inr c3 \<Rightarrow>
                recency (shards c3 ! 0) = [c, b] \<and> s_nodes (shards c3 ! 0) a = None \<and>
                s_calls (shards c3 ! 0) = s_calls (shards c2 ! 0) @ [OnAdd True c, OnEvict True a]"
    and r3': "case cache_run_ops [CGet a, CSet c vc] c2 of Inl e \<Rightarrow> False | Inr c3' \<Rightarrow>
                recency (shards c3' ! 0) = [c, a] \<and> s_nodes (shards c3' ! 0) b = None \<and>
                s_calls (shards c3' ! 0) =
                  s_calls (shards c2 ! 0) @ [OnHit True a, OnAdd True c, OnEvict True b]"
    using case_sum_Inr[OF r0] by blast
  show ?thesis
    using c0 c2 p2 case_sum_Inr[OF r3] case_sum_Inr[OF r3'] by blast
qed

theorem lru_eviction_order_witness:
  "distinct [''A'', ''B'', ''C''] \<and> ''A'' \<noteq> [] \<and> ''B'' \<noteq> [] \<and> ''C'' \<noteq> [] \<and>
   (\<exists>c0 c2 c3 c3'. NewLRUCache cfg1 = Inr c0 \<and>
           cache_run_ops [CSet ''A'' [1], CSet ''B'' [2]] c0 = Inr c2 \<and>
           cache_run_ops [CSet ''C'' [3]] c2 = Inr c3 \<and>
           recency (shards c3 ! 0) = [''C'', ''B''] \<and>
           cache_run_ops [CGet ''A'', CSet ''C'' [3]] c2 = Inr c3' \<and>
           recency (shards c3' ! 0) = [''C'', ''A''])"
proof -
  have h: "distinct [''A'', ''B'', ''C'']" "''A'' \<noteq> []" "''B'' \<noteq> []" "''C'' \<noteq> []" by simp_all
  show ?thesis
    using h lru_eviction_order[OF h, of "[1]" "[2]" "[3]"] by blast
qed

lemma reachable_abs:
  assumes "run_ops ops (newLRUCacheShard config i) = Inr s"
  shows "\<exists>xs. shard_abs s xs"
  using run_ops_abs[OF newLRUCacheShard_abs, of ops config i] assms by auto

lemma shard_abs_empty:
  assumes "shard_abs s xs" and "s_nodes s = Map.empty"
  shows "xs = []"
proof (cases xs)
  case Nil then show ?thesis .
next
  case (Cons a r)
  then have "s_nodes s (Key (node_at (s_mem s) a)) = Some a" using assms(1) by (simp add: shard_abs_def)
  then show ?thesis using assms(2) by simp
qed

text \<open>
  C10. \<open>Set\<close> of a key on a shard that holds no entry, called with a cache-wide length at
  or above \<open>maxItems\<close>: the result is what \<open>removeItemOldest\<close> makes of the state in
  which the new node is the only node and the back of the list; \<open>Set\<close> returns
  \<open>evicted = true\<close>, and afterwards the key is not in the map, the list is empty, and
  the callbacks (when enabled) have seen the add and the evict of this key.
\<close>

theorem set_on_empty_shard_at_threshold_evicts_new_entry:
  assumes "run_ops ops (newLRUCacheShard config i) = Inr s"
    and "s_nodes s = Map.empty"
    and "sint (s_maxItems s) \<le> sint cacheLen"
  shows "\<exists>s4 s'. shard_Set cacheLen k v ttl s =
             (case removeItemOldest s4 of Inl e \<Rightarrow> Inl e | Inr s5 \<Rightarrow> Inr ((True, False), s5)) \<and>
           linked s4 = [fresh (s_mem s)] \<and> s_nodes s4 = [k \<mapsto> fresh (s_mem s)] \<and>
           lruList_Back (s_list s4) (s_mem s4) = Some (fresh (s_mem s)) \<and>
           Key (node_at (s_mem s4) (fresh (s_mem s))) = k \<and>
           shard_Set cacheLen k v ttl s = Inr ((True, False), s') \<and>
           s_nodes s' k = None \<and> s_nodes s' = Map.empty \<and> linked s' = [] \<and>
           s_calls s' = s_calls s @ hook_if s (OnAdd (s_loggingOn s) k) @ hook_if s (OnEvict (s_loggingOn s) k)"
proof -
  obtain xs where ab: "shard_abs s xs" using reachable_abs[OF assms(1)] by blast
  have xs: "xs = []" by (rule shard_abs_empty[OF ab assms(2)])
  have np: "s_nodes s k = None" using assms(2) by simp
  obtain s4 where ab4: "shard_abs s4 [fresh (s_mem s)]"
    and n4: "s_nodes s4 = (s_nodes s)(k \<mapsto> fresh (s_mem s))"
    and c4: "same_config s s4"
    and h4: "s_calls s4 = s_calls s @ hook_if s (OnAdd (s_loggingOn s) k)"
    and k4: "Key (node_at (s_mem s4) (fresh (s_mem s))) = k"
    and run: "shard_Set cacheLen k v ttl s =
             (if sint (s_maxItems s) \<le> sint cacheLen
              then (case removeItemOldest s4 of Inl e \<Rightarrow> Inl e | Inr s5 \<Rightarrow> Inr ((True, False), s5))
              else Inr ((False, True), s4))"
    using shard_Set_insert[OF ab np, of v ttl cacheLen] xs by blast
  have run': "shard_Set cacheLen k v ttl s =
             (case removeItemOldest s4 of Inl e \<Rightarrow> Inl e | Inr s5 \<Rightarrow> Inr ((True, False), s5))"
    using run assms(3) by simp
  obtain s' where ro: "removeItemOldest s4 = Inr s'" and ab': "shard_abs s' []"
    and n': "s_nodes s' = (s_nodes s4)(Key (node_at (s_mem s4) (fresh (s_mem s))) := None)"
    and h': "s_calls s' = s_calls s4 @ hook_if s4 (OnEvict (s_loggingOn s4) (Key (node_at (s_mem s4) (fresh (s_mem s)))))"
    using removeItemOldest_props[OF ab4] by auto
  have rg4: "ring (s_mem s4) (s_list s4) [fresh (s_mem s)]" using ab4 by (simp add: shard_abs_def)
  have b4: "lruList_Back (s_list s4) (s_mem s4) = Some (fresh (s_mem s))"
    using lruList_Back_ring[OF rg4] by simp
  have hk: "hook_if s4 (OnEvict (s_loggingOn s4) k) = hook_if s (OnEvict (s_loggingOn s) k)"
    using c4 by (simp add: same_config_def hook_if_def)
  have 1: "shard_Set cacheLen k v ttl s = Inr ((True, False), s')" using run' ro by simp
  have 2: "s_nodes s' = Map.empty" using n' n4 k4 assms(2) by simp
  have 3: "s_calls s' = s_calls s @ hook_if s (OnAdd (s_loggingOn s) k) @ hook_if s (OnEvict (s_loggingOn s) k)"
    using h' h4 k4 hk by simp
  have 4: "s_nodes s4 = [k \<mapsto> fresh (s_mem s)]" using n4 assms(2) by simp
  have 5: "s_nodes s' k = None" using 2 by simp
  have 6: "linked s4 = [fresh (s_mem s)]" "linked s' = []"
    using shard_abs_linked[OF ab4] shard_abs_linked[OF ab'] by simp_all
  show ?thesis
    using run' 1 2 3 4 5 6 b4 k4 by blast
qed

theorem set_on_empty_shard_at_threshold_evicts_new_entry_witness:
  "run_ops [] (newLRUCacheShard cfg1 0) = Inr (newLRUCacheShard cfg1 0) \<and>
   s_nodes (newLRUCacheShard cfg1 0) = Map.empty \<and>
   sint (s_maxItems (newLRUCacheShard cfg1 0)) \<le> sint (2 :: 64 word) \<and>
   (\<exists>s'. shard_Set 2 ''a'' [1] 0 (newLRUCacheShard cfg1 0) = Inr ((True, False), s') \<and>
         s_nodes s' ''a'' = None \<and> linked s' = [] \<and>
         s_calls s' = [OnAdd True ''a'', OnEvict True ''a''])"
proof -
  have h: "run_ops [] (newLRUCacheShard cfg1 0) = Inr (newLRUCacheShard cfg1 0)"
    "s_nodes (newLRUCacheShard cfg1 0) = Map.empty"
    "sint (s_maxItems (newLRUCacheShard cfg1 0)) \<le> sint (2 :: 64 word)"
    by (simp_all add: newLRUCacheShard_def cfg1_def newLRUList_def newLRUListNode_def Let_def)
  have c: "s_calls (newLRUCacheShard cfg1 0) = []" "s_telemetryOn (newLRUCacheShard cfg1 0)"
    "s_loggingOn (newLRUCacheShard cfg1 0)"
    by (simp_all add: newLRUCacheShard_def cfg1_def newLRUList_def newLRUListNode_def Let_def)
  show ?thesis
    using h c set_on_empty_shard_at_threshold_evicts_new_entry[OF h, of "''a''" "[1]" 0]
    by (auto simp: hook_if_def)
qed

text \<open>
  C9, as stated, fails: on a shard whose telemetry flag is set, \<open>Remove\<close> of a present
  key calls the evict callback. The run is \<open>Set a\<close> on a new shard, then \<open>Remove a\<close>.
\<close>

theorem remove_calls_evict_hook_counterexample:
  "\<not> isl (run_ops [OpSet 0 ''a'' [1] 0] (newLRUCacheShard cfg1 0)) \<and>
   s_nodes (projr (run_ops [OpSet 0 ''a'' [1] 0] (newLRUCacheShard cfg1 0))) ''a'' = Some 2 \<and>
   \<not> isl (shard_Remove ''a'' (projr (run_ops [OpSet 0 ''a'' [1] 0] (newLRUCacheShard cfg1 0)))) \<and>
   fst (projr (shard_Remove ''a'' (projr (run_ops [OpSet 0 ''a'' [1] 0] (newLRUCacheShard cfg1 0))))) = True \<and>
   s_calls (snd (projr (shard_Remove ''a'' (projr (run_ops [OpSet 0 ''a'' [1] 0] (newLRUCacheShard cfg1 0))))))
     = [OnAdd True ''a'', OnEvict True ''a'']"
  by (simp add: list_defs shard_defs cfg1_def Let_def)

text \<open>
  C9, amended. On a shard reached by any sequence of operations: \<open>Remove\<close> of a present
  key returns true, takes its node out of the list (the other nodes keep their order)
  and its key out of the map (the other keys keep their nodes), leaves the five counters
  as they are, and calls the evict callback with this key exactly when the telemetry
  flag of the shard is set; \<open>Remove\<close> of an absent key returns false and changes nothing
  but the record of calls, which gets the miss callback when the flag is set.
\<close>

theorem remove_present_and_absent:
  assumes "run_ops ops (newLRUCacheShard config i) = Inr s"
  shows "(\<forall>item. s_nodes s k = Some item \<longrightarrow>
            (\<exists>s'. shard_Remove k s = Inr (True, s') \<and>
                  s_nodes s' = (s_nodes s)(k := None) \<and>
                  linked s' = remove1 item (linked s) \<and> item \<notin> set (linked s') \<and>
                  s_telemetry s' = s_telemetry s \<and>
                  s_calls s' = s_calls s @ hook_if s (OnEvict (s_loggingOn s) k))) \<and>
         (s_nodes s k = None \<longrightarrow>
            shard_Remove k s =
              Inr (False, s\<lparr>s_calls := s_calls s @ hook_if s (OnMiss (s_loggingOn s) k)\<rparr>))"
proof (intro conjI allI impI)
  fix item assume pr: "s_nodes s k = Some item"
  obtain xs where ab: "shard_abs s xs" using reachable_abs[OF assms] by blast
  have ix: "item \<in> set xs" and ik: "Key (node_at (s_mem s) item) = k"
    using ab pr by (auto simp: shard_abs_def)
  then obtain ys zs where xs: "xs = ys @ item # zs" by (meson split_list)
  have d: "distinct xs" using ab by (simp add: shard_abs_def ring_def)
  obtain s' where rm: "removeItem item s = Inr s'" and ab': "shard_abs s' (ys @ zs)"
    and n': "s_nodes s' = (s_nodes s)(k := None)"
    and h': "s_calls s' = s_calls s @ hook_if s (OnEvict (s_loggingOn s) k)"
    and c': "same_config s s'"
    using removeItem_props[OF ab xs] ik by auto
  have r1: "remove1 item xs = ys @ zs" using d xs by (simp add: remove1_append)
  have r2: "item \<notin> set (ys @ zs)" using d xs by auto
  have "shard_Remove k s = Inr (True, s')" using pr rm by (simp add: shard_Remove_def)
  moreover have "linked s' = remove1 item (linked s)" "item \<notin> set (linked s')"
    using shard_abs_linked[OF ab] shard_abs_linked[OF ab'] r1 r2 by simp_all
  moreover have "s_telemetry s' = s_telemetry s" using c' by (simp add: same_config_def)
  ultimately show "\<exists>s'. shard_Remove k s = Inr (True, s') \<and>
                  s_nodes s' = (s_nodes s)(k := None) \<and>
                  linked s' = remove1 item (linked s) \<and> item \<notin> set (linked s') \<and>
                  s_telemetry s' = s_telemetry s \<and>
                  s_calls s' = s_calls s @ hook_if s (OnEvict (s_loggingOn s) k)"
    using n' h' by blast
next
  assume "s_nodes s k = None"
  then show "shard_Remove k s =
              Inr (False, s\<lparr>s_calls := s_calls s @ hook_if s (OnMiss (s_loggingOn s) k)\<rparr>)"
    by (simp add: shard_Remove_def call_hook_eq)
qed

lemma run_set_a:
  "case run_ops [OpSet 0 ''a'' [1] 0] (newLRUCacheShard cfg1 0) of Inl e \<Rightarrow> False
   | Inr s \<Rightarrow> s_nodes s ''a'' = Some 2 \<and> s_nodes s ''b'' = None \<and> s_calls s = [OnAdd True ''a''] \<and>
             s_telemetryOn s \<and> s_loggingOn s \<and> linked s = [2]"
  by (simp add: list_defs shard_defs cfg1_def Let_def linked_def)

theorem remove_present_and_absent_witness:
  "\<exists>s. run_ops [OpSet 0 ''a'' [1] 0] (newLRUCacheShard cfg1 0) = Inr s \<and>
       s_nodes s ''a'' = Some 2 \<and> s_nodes s ''b'' = None \<and>
       (\<exists>s'. shard_Remove ''a'' s = Inr (True, s') \<and> s_nodes s' ''a'' = None \<and> linked s' = [] \<and>
             s_calls s' = [OnAdd True ''a'', OnEvict True ''a'']) \<and>
       (\<exists>s'. shard_Remove ''b'' s = Inr (False, s') \<and>
             s_calls s' = [OnAdd True ''a'', OnMiss True ''b''])"
proof -
  obtain s where r: "run_ops [OpSet 0 ''a'' [1] 0] (newLRUCacheShard cfg1 0) = Inr s"
    and f: "s_nodes s ''a'' = Some 2" "s_nodes s ''b'' = None" "s_calls s = [OnAdd True ''a'']"
      "s_telemetryOn s" "s_loggingOn s" "linked s = [2]"
    using case_sum_Inr[OF run_set_a] by blast
  have a: "\<exists>s'. shard_Remove ''a'' s = Inr (True, s') \<and> s_nodes s' ''a'' = None \<and> linked s' = [] \<and>
             s_calls s' = [OnAdd True ''a'', OnEvict True ''a'']"
    using remove_present_and_absent[OF r, of "''a''"] f by (auto simp: hook_if_def)
  have b: "\<exists>s'. shard_Remove ''b'' s = Inr (False, s') \<and>
             s_calls s' = [OnAdd True ''a'', OnMiss True ''b'']"
    using remove_present_and_absent[OF r, of "''b''"] f by (auto simp: hook_if_def)
  show ?thesis using r f a b by blast
qed

text \<open>
  C7, as stated, fails at the boundary: an entry set with expiry 100 is still present
  after a sweep that runs at the instant 100, since the sweep removes an entry only when
  its expiry is strictly before the reading of the clock.
\<close>

theorem sweep_at_expiry_keeps_entry_counterexample:
  "\<not> isl (run_ops [OpSet 0 ''a'' [1] 100] (newLRUCacheShard cfg1 0)) \<and>
   TTL (node_at (s_mem (projr (run_ops [OpSet 0 ''a'' [1] 100] (newLRUCacheShard cfg1 0)))) 2) = 100 \<and>
   \<not> isl (CleanupShard 100 [''a''] (projr (run_ops [OpSet 0 ''a'' [1] 100] (newLRUCacheShard cfg1 0)))) \<and>
   fst (projr (CleanupShard 100 [''a''] (projr (run_ops [OpSet 0 ''a'' [1] 100] (newLRUCacheShard cfg1 0))))) = 0 \<and>
   fst (shard_Contains ''a'' (snd (projr (CleanupShard 100 [''a'']
          (projr (run_ops [OpSet 0 ''a'' [1] 100] (newLRUCacheShard cfg1 0))))))) = True"
  by (simp add: list_defs shard_defs cfg1_def Let_def)

lemma CleanupShard_reachable:
  assumes "run_ops ops (newLRUCacheShard config i) = Inr s"
  shows "\<exists>n s'. CleanupShard now order s = Inr (n, s') \<and>
           same_config s s' \<and> same_payload (s_mem s) (s_mem s') \<and>
           (\<forall>k. s_nodes s' k = (if k \<in> set order \<and> due now s k then None else s_nodes s k)) \<and>
           n = word_of_nat (card {k \<in> set order. due now s k})"
proof -
  obtain xs where ab: "shard_abs s xs" using reachable_abs[OF assms] by blast
  show ?thesis
    using CleanupShard_loop_abs[OF ab, of now order 0] by (auto simp: CleanupShard_def)
qed

text \<open>
  C7, amended. For an entry of a shard reached by any sequence of operations: \<open>Get\<close>,
  \<open>Peek\<close> and \<open>Contains\<close> report it as present, with its value, whatever its expiry
  is (none of them reads the clock or the expiry). A sweep that reaches its key removes
  it when its expiry is set and strictly before the clock of the sweep, after which
  \<open>Contains\<close> is false; a sweep whose clock is at or before the expiry, or any sweep
  when the expiry is zero, leaves it present.
\<close>

theorem reads_ignore_expiry_and_sweep_removes_due:
  assumes "run_ops ops (newLRUCacheShard config i) = Inr s" and "s_nodes s k = Some item"
  shows "(\<exists>s'. shard_Get k s = Inr ((Value (node_at (s_mem s) item), True), s')) \<and>
         fst (shard_Peek k s) = (Value (node_at (s_mem s) item), True) \<and>
         fst (shard_Contains k s) = True \<and>
         (\<exists>n s'. CleanupShard now order s = Inr (n, s') \<and>
            fst (shard_Contains k s') =
              (\<not> (k \<in> set order \<and> TTL (node_at (s_mem s) item) < now \<and> TTL (node_at (s_mem s) item) \<noteq> 0)))"
proof -
  obtain xs where ab: "shard_abs s xs" using reachable_abs[OF assms(1)] by blast
  have 1: "\<exists>s'. shard_Get k s = Inr ((Value (node_at (s_mem s) item), True), s')"
    using shard_Get_hit[OF ab assms(2)] by blast
  have 2: "fst (shard_Peek k s) = (Value (node_at (s_mem s) item), True)"
    using assms(2) by (simp add: shard_Peek_eq)
  have 3: "fst (shard_Contains k s) = True"
    using assms(2) by (simp add: shard_Contains_eq)
  obtain n s' where cl: "CleanupShard now order s = Inr (n, s')"
    and nd: "\<forall>k. s_nodes s' k = (if k \<in> set order \<and> due now s k then None else s_nodes s k)"
    using CleanupShard_reachable[OF assms(1)] by blast
  have du: "due now s k = (TTL (node_at (s_mem s) item) < now \<and> TTL (node_at (s_mem s) item) \<noteq> 0)"
    using assms(2) by (simp add: due_def)
  have "fst (shard_Contains k s') =
         (\<not> (k \<in> set order \<and> TTL (node_at (s_mem s) item) < now \<and> TTL (node_at (s_mem s) item) \<noteq> 0))"
    using nd du assms(2) by (simp add: shard_Contains_eq)
  then show ?thesis using 1 2 3 cl by blast
qed

lemma run_set_a_ttl:
  "case run_ops [OpSet 0 ''a'' [1] 100] (newLRUCacheShard cfg1 0) of Inl e \<Rightarrow> False
   | Inr s \<Rightarrow> s_nodes s ''a'' = Some 2 \<and> TTL (node_at (s_mem s) 2) = 100 \<and> Value (node_at (s_mem s) 2) = [1]"
  by (simp add: list_defs shard_defs cfg1_def Let_def)

theorem reads_ignore_expiry_and_sweep_removes_due_witness:
  "\<exists>s. run_ops [OpSet 0 ''a'' [1] 100] (newLRUCacheShard cfg1 0) = Inr s \<and>
       s_nodes s ''a'' = Some 2 \<and> TTL (node_at (s_mem s) 2) = 100 \<and>
       (\<exists>s'. shard_Get ''a'' s = Inr (([1], True), s')) \<and>
       fst (shard_Peek ''a'' s) = ([1], True) \<and> fst (shard_Contains ''a'' s) = True \<and>
       (\<exists>n s'. CleanupShard 101 [''a''] s = Inr (n, s') \<and> fst (shard_Contains ''a'' s') = False) \<and>
       (\<exists>n s'. CleanupShard 100 [''a''] s = Inr (n, s') \<and> fst (shard_Contains ''a'' s') = True)"
proof -
  obtain s where r: "run_ops [OpSet 0 ''a'' [1] 100] (newLRUCacheShard cfg1 0) = Inr s"
    and f: "s_nodes s ''a'' = Some 2" "TTL (node_at (s_mem s) 2) = 100" "Value (node_at (s_mem s) 2) = [1]"
    using case_sum_Inr[OF run_set_a_ttl] by blast
  show ?thesis
    using r f reads_ignore_expiry_and_sweep_removes_due[OF r f(1), of 101 "[''a'']"]
      reads_ignore_expiry_and_sweep_removes_due[OF r f(1), of 100 "[''a'']"]
    by auto
qed

text \<open>
  C8. On a shard reached by any sequence of operations, a sweep whose range visits the
  keys of the map, in any order, does not fault; afterwards the map has lost exactly the
  keys whose node has an expiry that is set (not zero) and strictly before \<open>now\<close>, every
  other key keeps its node, no node changes its key, value or expiry, and the result is
  the number of keys removed. A key whose expiry is zero keeps its node for every \<open>now\<close>.
\<close>

theorem cleanup_removes_exactly_the_due_entries:
  assumes "run_ops ops (newLRUCacheShard config i) = Inr s" and "set order = dom (s_nodes s)"
  shows "\<exists>n s'. CleanupShard now order s = Inr (n, s') \<and>
           (\<forall>k. s_nodes s' k = (if due now s k then None else s_nodes s k)) \<and>
           same_payload (s_mem s) (s_mem s') \<and>
           n = word_of_nat (card {k. due now s k}) \<and>
           (\<forall>k item. s_nodes s k = Some item \<and> TTL (node_at (s_mem s) item) = 0 \<longrightarrow>
                s_nodes s' k = Some item)"
proof -
  obtain n s' where cl: "CleanupShard now order s = Inr (n, s')"
    and sp: "same_payload (s_mem s) (s_mem s')"
    and nd: "\<forall>k. s_nodes s' k = (if k \<in> set order \<and> due now s k then None else s_nodes s k)"
    and cn: "n = word_of_nat (card {k \<in> set order. due now s k})"
    using CleanupShard_reachable[OF assms(1)] by blast
  have in_order: "\<And>k. due now s k \<Longrightarrow> k \<in> set order"
    using assms(2) by (auto simp: due_def split: option.splits)
  have 1: "\<forall>k. s_nodes s' k = (if due now s k then None else s_nodes s k)"
    using nd in_order by auto
  have "{k \<in> set order. due now s k} = {k. due now s k}" using in_order by auto
  then have 2: "n = word_of_nat (card {k. due now s k})" using cn by simp
  have 3: "\<forall>k item. s_nodes s k = Some item \<and> TTL (node_at (s_mem s) item) = 0 \<longrightarrow>
                s_nodes s' k = Some item"
    using 1 by (auto simp: due_def)
  show ?thesis using cl sp 1 2 3 by blast
qed

lemma run_two_ttls:
  "case run_ops [OpSet 0 ''a'' [1] 5, OpSet 1 ''b'' [2] 0] (newLRUCacheShard cfg1 0) of Inl e \<Rightarrow> False
   | Inr s \<Rightarrow> dom (s_nodes s) = {''a'', ''b''} \<and> s_nodes s ''a'' = Some 2 \<and> s_nodes s ''b'' = Some 3 \<and>
       TTL (node_at (s_mem s) 2) = 5 \<and> TTL (node_at (s_mem s) 3) = 0 \<and>
       (case CleanupShard 7 [''b'', ''a''] s of Inl e \<Rightarrow> False
        | Inr (n, s') \<Rightarrow> n = 1 \<and> s_nodes s' ''a'' = None \<and> s_nodes s' ''b'' = Some 3)"
  by (simp add: list_defs shard_defs cfg1_def Let_def insert_commute)

theorem cleanup_removes_exactly_the_due_entries_witness:
  "\<exists>s. run_ops [OpSet 0 ''a'' [1] 5, OpSet 1 ''b'' [2] 0] (newLRUCacheShard cfg1 0) = Inr s \<and>
       set [''b'', ''a''] = dom (s_nodes s) \<and>
       s_nodes s ''b'' = Some 3 \<and> TTL (node_at (s_mem s) 3) = 0 \<and>
       due 7 s ''a'' \<and> \<not> due 7 s ''b'' \<and>
       (\<exists>n s'. CleanupShard 7 [''b'', ''a''] s = Inr (n, s') \<and> n = 1 \<and>
               n = word_of_nat (card {k. due 7 s k}) \<and>
               s_nodes s' ''a'' = None \<and> s_nodes s' ''b'' = Some 3)"
proof -
  obtain s where r: "run_ops [OpSet 0 ''a'' [1] 5, OpSet 1 ''b'' [2] 0] (newLRUCacheShard cfg1 0) = Inr s"
    and f: "dom (s_nodes s) = {''a'', ''b''}" "s_nodes s ''a'' = Some 2" "s_nodes s ''b'' = Some 3"
       "TTL (node_at (s_mem s) 2) = 5" "TTL (node_at (s_mem s) 3) = 0"
    and c: "case CleanupShard 7 [''b'', ''a''] s of Inl e \<Rightarrow> False
        | Inr (n, s') \<Rightarrow> n = 1 \<and> s_nodes s' ''a'' = None \<and> s_nodes s' ''b'' = Some 3"
    using case_sum_Inr[OF run_two_ttls] by blast
  have h: "set [''b'', ''a''] = dom (s_nodes s)" using f(1) by auto
  have d: "due 7 s ''a''" "\<not> due 7 s ''b''" using f by (simp_all add: due_def)
  obtain n s' where cl: "CleanupShard 7 [''b'', ''a''] s = Inr (n, s')"
    and n: "n = word_of_nat (card {k. due 7 s k})"
    using cleanup_removes_exactly_the_due_entries[OF r h, of 7] by blast
  have "n = 1 \<and> s_nodes s' ''a'' = None \<and> s_nodes s' ''b'' = Some 3" using c cl by simp
  then show ?thesis using r h f d cl n by blast
qed

lemma update_counts_run:
  "case NewLRUCache cfg1 of Inl e \<Rightarrow> False | Inr c0 \<Rightarrow>
     (case cache_Set ''k'' [1] c0 of Inl e \<Rightarrow> False | Inr (r1, c1) \<Rightarrow>
        r1 = (''k'', None) \<and> Len c1 = 1 \<and> total_entries c1 = 1 \<and>
        s_nodes (shards c1 ! 0) ''k'' = Some 2 \<and>
        (case cache_Set ''k'' [2] c1 of Inl e \<Rightarrow> False | Inr (r2, c2) \<Rightarrow>
           r2 = (''k'', None) \<and> Len c2 = 2 \<and> total_entries c2 = 1 \<and>
           recency (shards c2 ! 0) = [''k''] \<and>
           s_calls (shards c2 ! 0) = [OnAdd True ''k'', OnUpdate True ''k'']))"
  unfolding NewLRUCache_cfg1
  by (simp add: cache_defs shard_defs list_defs Let_def cfg1_def recency_def linked_def total_entries_def)

text \<open>
  C2 at the failing input. On a new cache (capacity 2, one shard) \<open>Set("k", 1)\<close> inserts
  the key and the counter becomes 1; the second \<open>Set("k", 2)\<close> finds the key, so it is
  an update, and the counter becomes 2 while the cache still holds one entry.
\<close>

theorem update_increments_total:
  "\<exists>c0 c1 c2. NewLRUCache cfg1 = Inr c0 \<and>
     cache_Set ''k'' [1] c0 = Inr ((''k'', None), c1) \<and> Len c1 = 1 \<and> total_entries c1 = 1 \<and>
     s_nodes (shards c1 ! 0) ''k'' = Some 2 \<and>
     cache_Set ''k'' [2] c1 = Inr ((''k'', None), c2) \<and> Len c2 = 2 \<and> total_entries c2 = 1 \<and>
     recency (shards c2 ! 0) = [''k''] \<and>
     s_calls (shards c2 ! 0) = [OnAdd True ''k'', OnUpdate True ''k'']"
proof -
  obtain c0 where c0: "NewLRUCache cfg1 = Inr c0"
    and r0: "case cache_Set ''k'' [1] c0 of Inl e \<Rightarrow> False | Inr (r1, c1) \<Rightarrow>
        r1 = (''k'', None) \<and> Len c1 = 1 \<and> total_entries c1 = 1 \<and>
        s_nodes (shards c1 ! 0) ''k'' = Some 2 \<and>
        (case cache_Set ''k'' [2] c1 of Inl e \<Rightarrow> False | Inr (r2, c2) \<Rightarrow>
           r2 = (''k'', None) \<and> Len c2 = 2 \<and> total_entries c2 = 1 \<and>
           recency (shards c2 ! 0) = [''k''] \<and>
           s_calls (shards c2 ! 0) = [OnAdd True ''k'', OnUpdate True ''k''])"
    using case_sum_Inr[OF update_counts_run] by blast
  obtain rc1 where rc1: "cache_Set ''k'' [1] c0 = Inr rc1"
    and r1: "case rc1 of (r1, c1) \<Rightarrow>
        r1 = (''k'', None) \<and> Len c1 = 1 \<and> total_entries c1 = 1 \<and>
        s_nodes (shards c1 ! 0) ''k'' = Some 2 \<and>
        (case cache_Set ''k'' [2] c1 of Inl e \<Rightarrow> False | Inr (r2, c2) \<Rightarrow>
           r2 = (''k'', None) \<and> Len c2 = 2 \<and> total_entries c2 = 1 \<and>
           recency (shards c2 ! 0) = [''k''] \<and>
           s_calls (shards c2 ! 0) = [OnAdd True ''k'', OnUpdate True ''k''])"
    using case_sum_Inr[OF r0] by blast
  obtain c1 where c1: "rc1 = ((''k'', None), c1)"
    and p1: "Len c1 = 1" "total_entries c1 = 1" "s_nodes (shards c1 ! 0) ''k'' = Some 2"
    and r2: "case cache_Set ''k'' [2] c1 of Inl e \<Rightarrow> False | Inr (r2, c2) \<Rightarrow>
           r2 = (''k'', None) \<and> Len c2 = 2 \<and> total_entries c2 = 1 \<and>
           recency (shards c2 ! 0) = [''k''] \<and>
           s_calls (shards c2 ! 0) = [OnAdd True ''k'', OnUpdate True ''k'']"
    using r1 by (cases rc1) auto
  obtain rc2 where rc2: "cache_Set ''k'' [2] c1 = Inr rc2"
    and r3: "case rc2 of (r2, c2) \<Rightarrow>
           r2 = (''k'', None) \<and> Len c2 = 2 \<and> total_entries c2 = 1 \<and>
           recency (shards c2 ! 0) = [''k''] \<and>
           s_calls (shards c2 ! 0) = [OnAdd True ''k'', OnUpdate True ''k'']"
    using case_sum_Inr[OF r2] by blast
  obtain c2 where c2: "rc2 = ((''k'', None), c2)"
    and p2: "Len c2 = 2" "total_entries c2 = 1" "recency (shards c2 ! 0) = [''k'']"
       "s_calls (shards c2 ! 0) = [OnAdd True ''k'', OnUpdate True ''k'']"
    using r3 by (cases rc2) auto
  show ?thesis using c0 rc1 c1 p1 rc2 c2 p2 by blast
qed

lemma telemetry_run:
  "case NewLRUCache cfg1 of Inl e \<Rightarrow> False | Inr c0 \<Rightarrow>
     (case cache_run_ops [CTelemetryReset, CSet ''a'' [1], CGet ''a'', CGet ''b''] c0 of
        Inl e \<Rightarrow> False
      | Inr c \<Rightarrow>
          s_telemetryOn (shards c ! 0) \<and>
          s_calls (shards c ! 0) = [OnAdd True ''a'', OnHit True ''a'', OnMiss True ''b''] \<and>
          s_telemetry (shards c ! 0) = newTelemetry \<and>
          cache_Telemetry c = Inr (None, Some ''cache telemetry is disabled'') \<and>
          Telemetry_loop (shards c) None = Inl NilDereference)"
  unfolding NewLRUCache_cfg1
  by (simp add: cache_defs shard_defs list_defs Let_def cfg1_def telemetry_store_def)

text \<open>
  C3 at the failing input. The configuration enables telemetry. After a reset, one
  \<open>Set\<close> of a new key, one \<open>Get\<close> that hits and one \<open>Get\<close> that misses, the shard
  has called the add, hit and miss callbacks, but \<open>Telemetry()\<close> returns the error
  \<open>cache telemetry is disabled\<close> and no snapshot: \<open>NewLRUCache\<close> never copies the flag
  into the cache. The counters of the shard are all zero (no operation stores into
  them), and the summing loop, entered with the nil result pointer, would fault.
\<close>

theorem telemetry_of_enabled_cache_is_refused:
  "\<exists>c0 c. TelemetryOn cfg1 \<and> NewLRUCache cfg1 = Inr c0 \<and>
     cache_run_ops [CTelemetryReset, CSet ''a'' [1], CGet ''a'', CGet ''b''] c0 = Inr c \<and>
     s_telemetryOn (shards c ! 0) \<and>
     s_calls (shards c ! 0) = [OnAdd True ''a'', OnHit True ''a'', OnMiss True ''b''] \<and>
     s_telemetry (shards c ! 0) = newTelemetry \<and>
     cache_Telemetry c = Inr (None, Some ''cache telemetry is disabled'') \<and>
     Telemetry_loop (shards c) None = Inl NilDereference"
proof -
  obtain c0 where c0: "NewLRUCache cfg1 = Inr c0"
    and r0: "case cache_run_ops [CTelemetryReset, CSet ''a'' [1], CGet ''a'', CGet ''b''] c0 of
        Inl e \<Rightarrow> False
      | Inr c \<Rightarrow>
          s_telemetryOn (shards c ! 0) \<and>
          s_calls (shards c ! 0) = [OnAdd True ''a'', OnHit True ''a'', OnMiss True ''b''] \<and>
          s_telemetry (shards c ! 0) = newTelemetry \<and>
          cache_Telemetry c = Inr (None, Some ''cache telemetry is disabled'') \<and>
          Telemetry_loop (shards c) None = Inl NilDereference"
    using case_sum_Inr[OF telemetry_run] by blast
  have t: "TelemetryOn cfg1" by (simp add: cfg1_def)
  show ?thesis using t c0 case_sum_Inr[OF r0] by blast
qed

lemma total_run:
  "case NewLRUCache cfg1 of Inl e \<Rightarrow> False | Inr c0 \<Rightarrow>
     Len c0 = 0 \<and> total_entries c0 = 0 \<and>
     (case cache_run_ops [CRemove ''a''] c0 of Inl e \<Rightarrow> False
      | Inr c \<Rightarrow> Len c = - 1 \<and> total_entries c = 0) \<and>
     (case cache_run_ops [CSetWithTTL 0 ''a'' [1] 1, CCleanupTick (\<lambda>_. 2000000000) (\<lambda>_. [''a''])] c0 of
        Inl e \<Rightarrow> False
      | Inr c \<Rightarrow> Len c = 2 \<and> total_entries c = 0) \<and>
     (case cache_run_ops [CSet ''a'' [1], CStop, CPurge] c0 of Inl e \<Rightarrow> False
      | Inr c \<Rightarrow> Len c = 1 \<and> total_entries c = 0)"
  unfolding NewLRUCache_cfg1
  by (simp add: cache_defs shard_defs list_defs Let_def cfg1_def total_entries_def)

text \<open>
  C6 at the failing input. On a new, empty cache \<open>Remove\<close> of an absent key leaves the
  shards empty and makes \<open>Len()\<close> \<open>-1\<close>. The other operations the claim names break the
  equation too: a sweep that removes one entry adds 1 to the counter (1 becomes 2, no
  entry left), and \<open>Purge\<close> empties the shards and keeps the counter.
\<close>

theorem len_differs_from_entries:
  "\<exists>c0 c1 c2 c3. NewLRUCache cfg1 = Inr c0 \<and> Len c0 = 0 \<and> total_entries c0 = 0 \<and>
     cache_run_ops [CRemove ''a''] c0 = Inr c1 \<and> Len c1 = - 1 \<and> total_entries c1 = 0 \<and>
     cache_run_ops [CSetWithTTL 0 ''a'' [1] 1, CCleanupTick (\<lambda>_. 2000000000) (\<lambda>_. [''a''])] c0 = Inr c2 \<and>
     Len c2 = 2 \<and> total_entries c2 = 0 \<and>
     cache_run_ops [CSet ''a'' [1], CStop, CPurge] c0 = Inr c3 \<and> Len c3 = 1 \<and> total_entries c3 = 0"
proof -
  obtain c0 where c0: "NewLRUCache cfg1 = Inr c0"
    and r0: "Len c0 = 0 \<and> total_entries c0 = 0 \<and>
     (case cache_run_ops [CRemove ''a''] c0 of Inl e \<Rightarrow> False
      | Inr c \<Rightarrow> Len c = - 1 \<and> total_entries c = 0) \<and>
     (case cache_run_ops [CSetWithTTL 0 ''a'' [1] 1, CCleanupTick (\<lambda>_. 2000000000) (\<lambda>_. [''a''])] c0 of
        Inl e \<Rightarrow> False
      | Inr c \<Rightarrow> Len c = 2 \<and> total_entries c = 0) \<and>
     (case cache_run_ops [CSet ''a'' [1], CStop, CPurge] c0 of Inl e \<Rightarrow> False
      | Inr c \<Rightarrow> Len c = 1 \<and> total_entries c = 0)"
    using case_sum_Inr[OF total_run] by blast
  have a: "case cache_run_ops [CRemove ''a''] c0 of Inl e \<Rightarrow> False
      | Inr c \<Rightarrow> Len c = - 1 \<and> total_entries c = 0"
    and b: "case cache_run_ops [CSetWithTTL 0 ''a'' [1] 1, CCleanupTick (\<lambda>_. 2000000000) (\<lambda>_. [''a''])] c0 of
        Inl e \<Rightarrow> False
      | Inr c \<Rightarrow> Len c = 2 \<and> total_entries c = 0"
    and c: "case cache_run_ops [CSet ''a'' [1], CStop, CPurge] c0 of Inl e \<Rightarrow> False
      | Inr c \<Rightarrow> Len c = 1 \<and> total_entries c = 0"
    using r0 by blast+
  show ?thesis
    using c0 r0 case_sum_Inr[OF a] case_sum_Inr[OF b] case_sum_Inr[OF c] by blast
qed

section \<open>Further facts about the counter, the telemetry flag and the default routing\<close>

text \<open>
  What \<open>Set\<close> of the shard returns on a well-formed shard: \<open>evicted\<close> for a new key
  at or above the threshold, \<open>added\<close> for a new key below it, neither for a present key.
\<close>

lemma shard_Set_result:
  assumes ab: "shard_abs s xs"
  shows "\<exists>s'. shard_Set cacheLen k v ttl s =
           Inr ((s_nodes s k = None \<and> sint (s_maxItems s) \<le> sint cacheLen,
                 s_nodes s k = None \<and> \<not> sint (s_maxItems s) \<le> sint cacheLen), s')"
proof (cases "s_nodes s k")
  case None
  obtain s4 where ab4: "shard_abs s4 (fresh (s_mem s) # xs)"
    and run: "shard_Set cacheLen k v ttl s =
             (if sint (s_maxItems s) \<le> sint cacheLen
              then (case removeItemOldest s4 of Inl e \<Rightarrow> Inl e | Inr s5 \<Rightarrow> Inr ((True, False), s5))
              else Inr ((False, True), s4))"
    using shard_Set_insert[OF ab None, of v ttl cacheLen] by blast
  obtain s5 where "removeItemOldest s4 = Inr s5"
    using removeItemOldest_props[OF ab4] by blast
  then show ?thesis using run None by auto
next
  case (Some item)
  then show ?thesis using shard_Set_update[OF ab Some, of cacheLen v ttl] by auto
qed

text \<open>
  The accounting of \<open>Set\<close> and \<open>SetWithTTL\<close>: the counter grows by one when the key is
  present (an update) and when it is new and nothing is evicted; it stays when the key is
  new and an entry is evicted.
\<close>

lemma route_and_Set_len:
  assumes "generateShardId_of c k (maxItems c) = Inr j" and "shard_index c j = Inr i"
    and "shard_abs (shards c ! i) xs"
  shows "\<exists>c'. route_and_Set k v ttl c = Inr ((k, None), c') \<and>
           len c' = (if s_nodes (shards c ! i) k \<noteq> None then len c + 1
                     else if sint (s_maxItems (shards c ! i)) \<le> sint (len c) then len c
                     else len c + 1)"
proof -
  obtain s' where "shard_Set (len c) k v ttl (shards c ! i) =
           Inr ((s_nodes (shards c ! i) k = None \<and> sint (s_maxItems (shards c ! i)) \<le> sint (len c),
                 s_nodes (shards c ! i) k = None \<and> \<not> sint (s_maxItems (shards c ! i)) \<le> sint (len c)), s')"
    using shard_Set_result[OF assms(3)] by blast
  then show ?thesis using assms(1,2) by (auto simp: route_and_Set_def Let_def)
qed

text \<open>
  No operation assigns the telemetry flag of the cache and \<open>NewLRUCache\<close> leaves it
  false, so \<open>Telemetry()\<close> returns an error after every run on every configuration.
\<close>

lemma cache_run_op_telemetryOn:
  "cache_run_op op c = Inr c' \<Longrightarrow> telemetryOn c' = telemetryOn c"
  by (cases op)
     (auto simp: cache_defs Let_def split: sum.splits prod.splits CacheStatus.splits if_splits)

lemma cache_run_ops_telemetryOn:
  "cache_run_ops ops c = Inr c' \<Longrightarrow> telemetryOn c' = telemetryOn c"
proof (induction ops arbitrary: c)
  case Nil then show ?case by simp
next
  case (Cons op ops)
  then obtain c1 where 1: "cache_run_op op c = Inr c1" and 2: "cache_run_ops ops c1 = Inr c'"
    by (auto split: sum.splits)
  show ?case using Cons.IH[OF 2] cache_run_op_telemetryOn[OF 1] by simp
qed

lemma NewLRUCache_telemetryOn: "NewLRUCache config = Inr c \<Longrightarrow> \<not> telemetryOn c"
  by (auto simp: NewLRUCache_def Start_def split: if_splits)

lemma cache_Telemetry_never_succeeds:
  assumes "NewLRUCache config = Inr c0" and "cache_run_ops ops c0 = Inr c"
  shows "\<exists>e. cache_Telemetry c = Inr (None, Some e)"
  using NewLRUCache_telemetryOn[OF assms(1)] cache_run_ops_telemetryOn[OF assms(2)]
  by (simp add: cache_Telemetry_def)

text \<open>
  What the default shard function does guarantee: for a positive \<open>maxItems\<close> the index
  is in \<open>[0, maxItems)\<close>.
\<close>

lemma generateShardId_below_maxItems:
  assumes "generateShardId sha1 k m = Inr j" and "0 < sint m"
  shows "0 \<le> sint j \<and> sint j < sint m"
proof -
  have m0: "m \<noteq> 0" using assms(2) by auto
  obtain u where u: "BigEndian_Uint64 (sha1 (bytes_of k)) = Inr u" and j: "j = u mod m"
    using assms(1) m0 by (auto simp: generateShardId_def Let_def split: sum.splits)
  have lt: "j < m" unfolding j using m0 by (simp add: word_mod_less_divisor word_neq_0_conv)
  have "sint m < 2 ^ 63" using sint_lt[of m] by simp
  then have sm: "uint m = sint m"
    using assms(2) uint_sint[of m] by (simp add: take_bit_int_eq_self)
  have uj: "uint j < uint m" using lt by (simp add: word_less_def)
  have "(0::int) \<le> uint j" by simp
  moreover have "- (2 ^ 63) \<le> (0::int)" by simp
  ultimately have "- (2 ^ 63) \<le> uint j" by (rule order_trans[rotated])
  moreover have "uint j < 2 ^ 63" using uj sm \<open>sint m < 2 ^ 63\<close> using less_trans[of "uint j" "sint m" "2 ^ 63"] by simp
  ultimately have "signed_take_bit 63 (uint j) = uint j"
    by (rule signed_take_bit_int_eq_self)
  then have "sint j = uint j"
    using sint_uint[of j] by simp
  then show ?thesis using uj sm by simp
qed

text \<open>
  With the default configuration a \<open>Set\<close> without a key calls the default key function,
  whose type assertion fails.
\<close>

lemma default_generateKey_faults:
  assumes "NewLRUCache (defaultConfig sha1) = Inr c"
  shows "cache_Set [] v c = Inl TypeAssertion"
proof -
  have "generateKey_of c = generateKey sha1" and "status c = Started"
    using assms unfolding NewLRUCache_def sint_MaxShards_default Start_def
    by (auto simp: defaultConfig_def)
  then show ?thesis by (simp add: cache_Set_def Status_def generateKey_def)
qed

end
